theory Spec2Isabelle
  imports Complex_Main
begin

section \<open>Data model of \<open>parsito::embedding\<close>\<close>

text \<open>
  The class \<open>embedding\<close> of \<open>src/parsito/embedding/embedding.cpp\<close> is embedded as a record
  that every member function takes and returns.

  \<^item> \<open>std::string\<close> is \<open>string\<close>, a list of bytes. The unilib UTF-8 layer (\<open>utf8::decode\<close>, \<open>utf8::decoder\<close>,
    \<open>utf8::append\<close>, \<open>utf8::map\<close>, \<open>utf8::first\<close>) is not part of the sources; see the
    definitions marked below.
  \<^item> \<open>unordered_map<string, int>\<close> is an association list in insertion order: the code
    uses \<open>find\<close>, \<open>emplace\<close> and \<open>size\<close> only, and \<open>size\<close> decides the ids handed out.
  \<^item> \<open>int\<close> values (ids) are \<open>int\<close>, container sizes are \<open>nat\<close>. The conversion of a
    container size to \<open>unsigned\<close> or \<open>int\<close> is taken as exact. The 32-bit unsigned
    product \<open>id * dimension\<close>, whose operand \<open>id\<close> is chosen by the caller, is written
    with its wrap-around modulo \<open>2 ^ 32\<close>.
  \<^item> \<open>float\<close> is \<open>real\<close>: rounding is not modelled, so multiplying by \<open>1.f / float(n)\<close> is
    the exact division by \<open>n\<close>.
  \<^item> An access beyond the end of a vector (undefined behaviour in C++), a division by
    zero and a failed read of the decoder are values of the type \<open>error\<close>.
\<close>

datatype error = OutOfRange | DivisionByZero | DecoderError

type_synonym dict = "(string \<times> int) list"

definition dict_find :: "dict \<Rightarrow> string \<Rightarrow> int option" where
  "dict_find d w = map_of d w"

definition dict_emplace :: "dict \<Rightarrow> string \<Rightarrow> int \<Rightarrow> dict" where
  "dict_emplace d w i = (case dict_find d w of None \<Rightarrow> d @ [(w, i)] | Some _ \<Rightarrow> d)"

record embedding =
  dimension :: nat
  updatable_index :: int
  unknown_index :: int
  dictionary :: dict
  weights :: "real list"
  subform :: bool
  subforms :: "int list list"
  previous_weights :: "real list list"
  active_subforms :: "int list"
  decomposed_forms :: dict

subsection \<open>Unicode classification\<close>

text \<open>
  Modelled from the spec: \<open>unilib/unicode.h\<close> (\<open>unicode::category\<close>, \<open>unicode::lowercase\<close>
  and the category masks) is missing from the sources. The spec treats classification and
  lowercasing of a character as an injected capability, so both are parameters
  \<open>cat\<close> and \<open>lower\<close> of \<open>lookup_word\<close>. A \<open>category_t\<close> bit mask is the set of the
  categories whose bits are set: \<open>Lut\<close> is uppercase or titlecase, \<open>N\<close> is numeric,
  \<open>L\<close> is any letter.
\<close>

datatype category = Lu | Ll | Lt | Lm | Lo | Nd | Nl | No | Other

definition Lut :: "category set" where "Lut = {Lu, Lt}"
definition N :: "category set" where "N = {Nd, Nl, No}"
definition L :: "category set" where "L = {Lu, Ll, Lt, Lm, Lo}"

text \<open>
  Modelled from the spec: \<open>unilib/utf8.h\<close> is missing from the sources. In the heuristic
  chain (lines 78-113) the spec speaks of the characters of a word and classifies and
  lowercases them one by one: there \<open>utf8::decoder\<close> yields the elements of the string one
  after the other and \<open>utf8::append\<close> adds one element, which is what the code does on a
  word of single-byte characters. The subword decomposition (lines 35-46) works on the
  bytes of the strings that \<open>load\<close> has stored in the dictionary; for it \<open>utf8::decode\<close>
  is modelled below with its steps of one to four bytes.
\<close>

text \<open>The first loop of the heuristics (lines 78-83): the categories of the first
  character and of all the other characters.\<close>

fun scan_categories ::
  "(char \<Rightarrow> category) \<Rightarrow> string \<Rightarrow> bool \<Rightarrow> category set \<times> category set
     \<Rightarrow> category set \<times> category set" where
  "scan_categories cat [] first (first_category, other_categories) =
     (first_category, other_categories)"
| "scan_categories cat (chr # rest) first (first_category, other_categories) =
     scan_categories cat rest False
       (if first then (first_category \<union> {cat chr}, other_categories)
        else (first_category, other_categories \<union> {cat chr}))"

text \<open>The second loop (lines 87-92): lowercase all characters but the first.\<close>

fun lowercase_but_first :: "(char \<Rightarrow> char) \<Rightarrow> string \<Rightarrow> bool \<Rightarrow> string \<Rightarrow> string" where
  "lowercase_but_first lower [] first buffer = buffer"
| "lowercase_but_first lower (chr # rest) first buffer =
     lowercase_but_first lower rest False (buffer @ [if first then chr else lower chr])"

text \<open>\<open>utf8::map(unicode::lowercase, word, buffer)\<close> and \<open>utf8::first(word)\<close>.\<close>

definition utf8_map :: "(char \<Rightarrow> char) \<Rightarrow> string \<Rightarrow> string" where
  "utf8_map f word = map f word"

definition utf8_first :: "string \<Rightarrow> char" where
  "utf8_first word = (case word of [] \<Rightarrow> CHR 0x00 | chr # _ \<Rightarrow> chr)"

subsection \<open>Subword decomposition (lines 35-46)\<close>

text \<open>
  Modelled from the spec: \<open>utf8::decode(str, len)\<close> of \<open>unilib/utf8.h\<close>, which is missing
  from the sources, removes one character from the front of a string piece. A character
  is a lead byte and the continuation bytes (\<open>0x80\<close> to \<open>0xBF\<close>) that the lead byte
  announces: none below \<open>0xC0\<close>, one below \<open>0xE0\<close>, two below \<open>0xF0\<close>, three below
  \<open>0xF8\<close>. In a malformed string the character ends where a continuation byte is missing.
  \<open>utf8_decode\<close> is the string piece that is left; the decoded character is not used by
  the loops.
\<close>

definition continuation_byte :: "char \<Rightarrow> bool" where
  "continuation_byte c \<longleftrightarrow> 0x80 \<le> (of_char c :: nat) \<and> (of_char c :: nat) < 0xC0"

definition announced :: "char \<Rightarrow> nat" where
  "announced c =
     (let b = (of_char c :: nat) in
      if b < 0xC0 then 0 else if b < 0xE0 then 1 else if b < 0xF0 then 2
      else if b < 0xF8 then 3 else 0)"

fun continuation_bytes :: "nat \<Rightarrow> string \<Rightarrow> nat" where
  "continuation_bytes 0 str = 0"
| "continuation_bytes (Suc n) [] = 0"
| "continuation_bytes (Suc n) (c # str) =
     (if continuation_byte c then Suc (continuation_bytes n str) else 0)"

definition utf8_decode :: "string \<Rightarrow> string" where
  "utf8_decode str =
     (case str of
        [] \<Rightarrow> []
      | c # rest \<Rightarrow> drop (continuation_bytes (announced c) rest) rest)"

text \<open>
  The inner loop: \<open>substr\<close> walks over at most four characters of \<open>form\<close>; from the second
  on, the prefix of \<open>form\<close> read so far is looked up and a hit is pushed to the list
  under construction.
\<close>

function inner_loop :: "dict \<Rightarrow> string \<Rightarrow> string \<Rightarrow> nat \<Rightarrow> int list \<Rightarrow> int list" where
  "inner_loop d form substr len acc =
     (if len < 4 \<and> substr \<noteq> [] then
        let substr' = utf8_decode substr;
            buffer = take (length form - length substr') form;
            acc' = (if len \<noteq> 0 then
                      (case dict_find d buffer of Some i \<Rightarrow> acc @ [i] | None \<Rightarrow> acc)
                    else acc)
        in inner_loop d form substr' (len + 1) acc'
      else acc)"
  by pat_completeness auto
termination
  by (relation "measure (\<lambda>(d, form, substr, len, acc). 4 - len)") auto

declare inner_loop.simps [simp del]

text \<open>The outer loop: one pass of the inner loop from the start of every character.\<close>

function outer_loop :: "dict \<Rightarrow> string \<Rightarrow> int list \<Rightarrow> int list" where
  "outer_loop d form acc =
     (if form \<noteq> [] then outer_loop d (utf8_decode form) (inner_loop d form form 0 acc)
      else acc)"
  by pat_completeness auto
termination
  by (relation "measure (\<lambda>(d, form, acc). length form)")
     (auto simp: utf8_decode_def split: list.splits)

declare outer_loop.simps [simp del]

section \<open>\<open>embedding::lookup_word\<close>\<close>

text \<open>
  The scratch parameter \<open>buffer\<close> of the source carries no information between calls and
  is local to the model. The two \<open>assert\<close>s of lines 61-62 read the state only.
\<close>

definition lookup_subform :: "embedding \<Rightarrow> string \<Rightarrow> int \<times> embedding" where
  "lookup_subform s word =
     (case dict_find (decomposed_forms s) word of
        Some second \<Rightarrow> (second, s)
      | None \<Rightarrow>
          let word_bow_eow = ''<'' @ word @ ''>'';
              back = outer_loop (dictionary s) word_bow_eow []
          in if back = [] \<and> unknown_index s < 0 then
               (unknown_index s,
                s\<lparr>decomposed_forms := dict_emplace (decomposed_forms s) word (unknown_index s)\<rparr>)
             else
               let back = (if back = [] then [unknown_index s] else back);
                   back = remdups_adj (sort back);
                   id = int (length (subforms s))
               in (id,
                   s\<lparr>subforms := subforms s @ [back],
                     previous_weights := previous_weights s @ [replicate (dimension s + 1) 0],
                     weights := weights s @ replicate (dimension s) 0,
                     decomposed_forms := dict_emplace (decomposed_forms s) word id\<rparr>))"

definition lookup_heuristic ::
  "(char \<Rightarrow> category) \<Rightarrow> (char \<Rightarrow> char) \<Rightarrow> embedding \<Rightarrow> string \<Rightarrow> int" where
  "lookup_heuristic cat lower s word =
     (case dict_find (dictionary s) word of
        Some second \<Rightarrow> second
      | None \<Rightarrow>
          let (first_category, other_categories) = scan_categories cat word True ({}, {});
              step2 = (if first_category \<inter> Lut \<noteq> {} \<and> other_categories \<inter> Lut \<noteq> {}
                       then dict_find (dictionary s) (lowercase_but_first lower word True [])
                       else None);
              step3 = (if first_category \<inter> Lut \<noteq> {} \<or> other_categories \<inter> Lut \<noteq> {}
                       then dict_find (dictionary s) (utf8_map lower word)
                       else None);
              step4 = (if first_category \<inter> N \<noteq> {} \<and> other_categories \<inter> L = {}
                       then dict_find (dictionary s) [utf8_first word]
                       else None)
          in case step2 of
               Some second \<Rightarrow> second
             | None \<Rightarrow>
                 (case step3 of
                    Some second \<Rightarrow> second
                  | None \<Rightarrow>
                      (case step4 of
                         Some second \<Rightarrow> second
                       | None \<Rightarrow> unknown_index s)))"

definition lookup_word ::
  "(char \<Rightarrow> category) \<Rightarrow> (char \<Rightarrow> char) \<Rightarrow> embedding \<Rightarrow> string \<Rightarrow> int \<times> embedding" where
  "lookup_word cat lower s word =
     (if subform s then lookup_subform s word
      else (lookup_heuristic cat lower s word, s))"

definition unknown_word :: "embedding \<Rightarrow> int" where
  "unknown_word s = unknown_index s"

section \<open>\<open>embedding::weight\<close>\<close>

text \<open>
  \<open>id * dimension\<close> multiplies an \<open>int\<close> with the unsigned 32-bit \<open>dimension\<close>: the \<open>int\<close> is
  converted to unsigned and the product and the sum \<open>id * dimension + j\<close> are taken
  modulo \<open>2 ^ 32\<close>, before they are compared with a size or used as an index.
\<close>

definition u32 :: "int \<Rightarrow> nat" where
  "u32 i = nat (i mod 2 ^ 32)"

definition row_offset :: "nat \<Rightarrow> int \<Rightarrow> nat" where
  "row_offset d ident = (u32 ident * d) mod 2 ^ 32"

definition index :: "nat \<Rightarrow> int \<Rightarrow> nat \<Rightarrow> nat" where
  "index d ident j = (u32 ident * d + j) mod 2 ^ 32"

text \<open>A loop \<open>for (unsigned j = 0; j < dimension; j++)\<close> over the vector of weights.\<close>

definition for_j :: "nat \<Rightarrow> (nat \<Rightarrow> real list \<Rightarrow> real list) \<Rightarrow> real list \<Rightarrow> real list" where
  "for_j d body w = foldl (\<lambda>w j. body j w) w [0..<d]"

text \<open>
  The materialization of lines 131-142. The accesses it makes are in range when
  \<open>materialize_in_range\<close> holds; \<open>weight\<close> checks this before it calls \<open>materialize\<close>.
\<close>

definition materialize_in_range :: "embedding \<Rightarrow> int \<Rightarrow> bool" where
  "materialize_in_range s ident =
     (nat ident < length (subforms s) \<and>
      (\<forall>j<dimension s. row_offset (dimension s) ident + j < length (weights s) \<and>
                       index (dimension s) ident j < length (weights s)) \<and>
      (\<forall>subform \<in> set (subforms s ! nat ident).
         \<forall>j<dimension s. index (dimension s) subform j < length (weights s)))"

definition materialize :: "embedding \<Rightarrow> int \<Rightarrow> embedding" where
  "materialize s ident =
     (let d = dimension s;
          w = for_j d (\<lambda>j w. w[row_offset d ident + j := 0]) (weights s);
          w = foldl (\<lambda>w subform.
                 for_j d (\<lambda>j w. w[index d ident j := w ! index d ident j + w ! index d subform j]) w)
               w (subforms s ! nat ident);
          normalize = 1 / real (length (subforms s ! nat ident));
          w = for_j d (\<lambda>j w. w[index d ident j := w ! index d ident j * normalize]) w;
          p = foldl (\<lambda>p j. p[j := w ! (row_offset d ident + j)]) (previous_weights s ! nat ident) [0..<d];
          p = p[d := 1]
      in s\<lparr>weights := w,
           previous_weights := (previous_weights s)[nat ident := p],
           active_subforms := active_subforms s @ [ident]\<rparr>)"

text \<open>
  The result is the offset of the returned pointer from \<open>weights.data()\<close>, or \<open>None\<close> for
  \<open>nullptr\<close>.
\<close>

definition weight :: "embedding \<Rightarrow> int \<Rightarrow> error + (nat option \<times> embedding)" where
  "weight s ident =
     (if ident < 0 \<or> row_offset (dimension s) ident \<ge> length (weights s) then Inr (None, s)
      else if subform s then
        if \<not> nat ident < length (previous_weights s) then Inl OutOfRange
        else if previous_weights s ! nat ident \<noteq> [] then
          if \<not> dimension s < length (previous_weights s ! nat ident) then Inl OutOfRange
          else if previous_weights s ! nat ident ! dimension s = 0 then
            if materialize_in_range s ident
            then Inr (Some (row_offset (dimension s) ident), materialize s ident)
            else Inl OutOfRange
          else Inr (Some (row_offset (dimension s) ident), s)
        else Inr (Some (row_offset (dimension s) ident), s)
      else Inr (Some (row_offset (dimension s) ident), s))"

section \<open>\<open>embedding::update_weights\<close>\<close>

definition update_in_range :: "embedding \<Rightarrow> int \<Rightarrow> bool" where
  "update_in_range s ident =
     (0 \<le> ident \<and> nat ident < length (subforms s) \<and> nat ident < length (previous_weights s) \<and>
      dimension s < length (previous_weights s ! nat ident) \<and>
      (\<forall>j<dimension s. index (dimension s) ident j < length (weights s)) \<and>
      (\<forall>subform \<in> set (subforms s ! nat ident).
         \<forall>j<dimension s. index (dimension s) subform j < length (weights s)))"

text \<open>The body of the loop over \<open>active_subforms\<close> (lines 152-160).\<close>

definition update_step :: "embedding \<Rightarrow> int \<Rightarrow> embedding" where
  "update_step s ident =
     (let d = dimension s;
          normalize = 1 / real (length (subforms s ! nat ident));
          w = for_j d (\<lambda>j w. w[index d ident j :=
                 (w ! index d ident j - previous_weights s ! nat ident ! j) * normalize]) (weights s);
          w = foldl (\<lambda>w subform.
                 for_j d (\<lambda>j w. w[index d subform j := w ! index d subform j + w ! index d ident j]) w)
               w (subforms s ! nat ident)
      in s\<lparr>weights := w,
           previous_weights := (previous_weights s)[nat ident := (previous_weights s ! nat ident)[d := 0]]\<rparr>)"

fun update_loop :: "embedding \<Rightarrow> int list \<Rightarrow> error + embedding" where
  "update_loop s [] = Inr s"
| "update_loop s (ident # ids) =
     (if update_in_range s ident then update_loop (update_step s ident) ids else Inl OutOfRange)"

definition update_weights :: "embedding \<Rightarrow> error + embedding" where
  "update_weights s =
     (if subform s then
        (case update_loop s (active_subforms s) of
           Inl e \<Rightarrow> Inl e
         | Inr s' \<Rightarrow> Inr (s'\<lparr>active_subforms := []\<rparr>))
      else Inr s)"

section \<open>\<open>embedding::load\<close>\<close>

text \<open>
  Modelled from the spec: the class \<open>binary_decoder\<close> (\<open>utils/binary_decoder.h\<close>) is
  missing from the sources. The spec has a 4-byte dimension and dictionary size, 1-byte
  flags, length-prefixed strings and a block of 4-byte floats. The decoder is the list of
  the bytes not yet read; every read fails on a short input. A 4-byte value is read least
  significant byte first; the length of a string is one byte, the value 255 announcing a
  4-byte length. The value of the four bytes of a float is given by the parameter
  \<open>float_of\<close>.
\<close>

type_synonym binary_decoder = string

definition next_bytes :: "nat \<Rightarrow> binary_decoder \<Rightarrow> error + (string \<times> binary_decoder)" where
  "next_bytes n dat = (if length dat < n then Inl DecoderError else Inr (take n dat, drop n dat))"

definition next_1B :: "binary_decoder \<Rightarrow> error + (nat \<times> binary_decoder)" where
  "next_1B dat =
     (case next_bytes 1 dat of
        Inl e \<Rightarrow> Inl e
      | Inr (bs, dat') \<Rightarrow> Inr (of_char (hd bs), dat'))"

definition le_value :: "string \<Rightarrow> nat" where
  "le_value bs = foldr (\<lambda>b v. of_char b + 256 * v) bs 0"

definition next_4B :: "binary_decoder \<Rightarrow> error + (nat \<times> binary_decoder)" where
  "next_4B dat =
     (case next_bytes 4 dat of
        Inl e \<Rightarrow> Inl e
      | Inr (bs, dat') \<Rightarrow> Inr (le_value bs, dat'))"

definition next_str :: "binary_decoder \<Rightarrow> error + (string \<times> binary_decoder)" where
  "next_str dat =
     (case next_1B dat of
        Inl e \<Rightarrow> Inl e
      | Inr (len, dat') \<Rightarrow>
          if len = 255 then
            (case next_4B dat' of
               Inl e \<Rightarrow> Inl e
             | Inr (len, dat'') \<Rightarrow> next_bytes len dat'')
          else next_bytes len dat')"

fun chunks4 :: "nat \<Rightarrow> string \<Rightarrow> string list" where
  "chunks4 0 bs = []"
| "chunks4 (Suc n) bs = take 4 bs # chunks4 n (drop 4 bs)"

definition next_float ::
  "(string \<Rightarrow> real) \<Rightarrow> nat \<Rightarrow> binary_decoder \<Rightarrow> error + (real list \<times> binary_decoder)" where
  "next_float float_of elements dat =
     (case next_bytes (4 * elements) dat of
        Inl e \<Rightarrow> Inl e
      | Inr (bs, dat') \<Rightarrow> Inr (map float_of (chunks4 elements bs), dat'))"

text \<open>The loop of lines 175-178 that fills the dictionary.\<close>

fun load_dictionary :: "nat \<Rightarrow> dict \<Rightarrow> binary_decoder \<Rightarrow> error + (dict \<times> binary_decoder)" where
  "load_dictionary 0 dict dat = Inr (dict, dat)"
| "load_dictionary (Suc n) dict dat =
     (case next_str dat of
        Inl e \<Rightarrow> Inl e
      | Inr (word, dat') \<Rightarrow>
          load_dictionary n (dict_emplace dict word (int (length dict))) dat')"

text \<open>\<open>vector::resize\<close>: cut, or fill up with empty vectors.\<close>

definition resize :: "nat \<Rightarrow> 'a list list \<Rightarrow> 'a list list" where
  "resize n xs = take n xs @ replicate (n - length xs) []"

definition load ::
  "(string \<Rightarrow> real) \<Rightarrow> embedding \<Rightarrow> binary_decoder \<Rightarrow> error + (embedding \<times> binary_decoder)" where
  "load float_of s dat =
     (case next_4B dat of
        Inl e \<Rightarrow> Inl e
      | Inr (d, dat) \<Rightarrow>
     (case next_4B dat of
        Inl e \<Rightarrow> Inl e
      | Inr (n, dat) \<Rightarrow>
     (case load_dictionary n [] dat of
        Inl e \<Rightarrow> Inl e
      | Inr (dict, dat) \<Rightarrow>
     (case next_1B dat of
        Inl e \<Rightarrow> Inl e
      | Inr (has_unknown, dat) \<Rightarrow>
     (case next_1B dat of
        Inl e \<Rightarrow> Inl e
      | Inr (sub, dat) \<Rightarrow>
          let unknown = (if has_unknown \<noteq> 0 then int (length dict) else - 1) in
     (case next_float float_of (d * (length dict + (if unknown \<ge> 0 then 1 else 0))) dat of
        Inl e \<Rightarrow> Inl e
      | Inr (ws, dat) \<Rightarrow>
          if d = 0 then Inl DivisionByZero
          else Inr (s\<lparr>dimension := d,
                      updatable_index := 2 ^ 31 - 1,
                      unknown_index := unknown,
                      dictionary := dict,
                      weights := ws,
                      subform := (sub \<noteq> 0),
                      subforms := resize (length ws div d) (subforms s),
                      previous_weights := resize (length ws div d) (previous_weights s)\<rparr>,
                    dat)))))))"

section \<open>The n-grams of a marked form\<close>

text \<open>
  The spec's description of the decomposition: from the start of every character of the
  marked form, the substrings of 2, 3 and 4 characters that fit. \<open>ngrams_at\<close> has the
  substrings that begin at the front of \<open>form\<close>: the one of \<open>k\<close> characters is there when
  \<open>form\<close> has \<open>k\<close> characters, and it ends where the rest after \<open>k\<close> characters begins.
\<close>

definition ngrams_at :: "string \<Rightarrow> string list" where
  "ngrams_at form =
     (let rest1 = utf8_decode form; rest2 = utf8_decode rest1;
          rest3 = utf8_decode rest2; rest4 = utf8_decode rest3
      in (if rest1 \<noteq> [] then [take (length form - length rest2) form] else []) @
         (if rest2 \<noteq> [] then [take (length form - length rest3) form] else []) @
         (if rest3 \<noteq> [] then [take (length form - length rest4) form] else []))"

function ngrams :: "string \<Rightarrow> string list" where
  "ngrams form = (if form \<noteq> [] then ngrams_at form @ ngrams (utf8_decode form) else [])"
  by pat_completeness auto
termination
  by (relation "measure length") (auto simp: utf8_decode_def split: list.splits)

declare ngrams.simps [simp del]

section \<open>The layout of a persisted embedding\<close>

text \<open>
  The bytes that the reads of \<open>load\<close> expect: a 4-byte value, least significant byte
  first, and a string behind its length.
\<close>

definition enc_4B :: "nat \<Rightarrow> string" where
  "enc_4B n = map char_of [n, n div 256, n div 256 div 256, n div 256 div 256 div 256]"

definition enc_str :: "string \<Rightarrow> string" where
  "enc_str w =
     (if length w < 255 then [char_of (length w)] else CHR 0xFF # enc_4B (length w)) @ w"

section \<open>Example tables and embeddings\<close>

text \<open>
  An ASCII instance of the Unicode tables, and small embeddings in the state that
  \<open>load\<close> leaves, among them the scenario of the spec: the dictionary
  \<open>{cat: 0, dog: 1}\<close>, dimension 2, rows \<open>[1, 0]\<close> and \<open>[0, 1]\<close>, no unknown
  word, subform mode.
\<close>

definition ascii_category :: "char \<Rightarrow> category" where
  "ascii_category c =
     (if c \<in> set ''ABCDEFGHIJKLMNOPQRSTUVWXYZ'' then Lu
      else if c \<in> set ''abcdefghijklmnopqrstuvwxyz'' then Ll
      else if c \<in> set ''0123456789'' then Nd
      else Other)"

definition ascii_lowercase :: "char \<Rightarrow> char" where
  "ascii_lowercase c =
     (case map_of (zip ''ABCDEFGHIJKLMNOPQRSTUVWXYZ'' ''abcdefghijklmnopqrstuvwxyz'') c of
        Some l \<Rightarrow> l
      | None \<Rightarrow> c)"

definition cat_dog :: embedding where
  "cat_dog = \<lparr>dimension = 2, updatable_index = 2147483647, unknown_index = - 1,
     dictionary = [(''cat'', 0), (''dog'', 1)], weights = [1, 0, 0, 1], subform = True,
     subforms = [[], []], previous_weights = [[], []], active_subforms = [],
     decomposed_forms = []\<rparr>"

definition the_only :: embedding where
  "the_only = \<lparr>dimension = 3, updatable_index = 2147483647, unknown_index = - 1,
     dictionary = [(''the'', 0)], weights = [1, 2, 3], subform = False,
     subforms = [[]], previous_weights = [[]], active_subforms = [],
     decomposed_forms = []\<rparr>"

definition cat_dog_unknown :: embedding where
  "cat_dog_unknown = \<lparr>dimension = 2, updatable_index = 2147483647, unknown_index = 2,
     dictionary = [(''cat'', 0), (''dog'', 1)], weights = [1, 0, 0, 1, 5, 7], subform = True,
     subforms = [[], [], []], previous_weights = [[], [], []], active_subforms = [],
     decomposed_forms = []\<rparr>"

text \<open>
  A freshly constructed embedding, a stand-in for the decoding of a float (the value of
  its first byte) and the bytes of a file from which \<open>load\<close> produces \<open>cat_dog\<close>.
\<close>

definition fresh_embedding :: embedding where
  "fresh_embedding = \<lparr>dimension = 0, updatable_index = 0, unknown_index = 0,
     dictionary = [], weights = [], subform = False,
     subforms = [], previous_weights = [], active_subforms = [],
     decomposed_forms = []\<rparr>"

definition byte_float :: "string \<Rightarrow> real" where
  "byte_float bs = real (of_char (hd bs))"

definition cat_dog_file :: string where
  "cat_dog_file =
     [CHR 0x02, CHR 0x00, CHR 0x00, CHR 0x00] @
     [CHR 0x02, CHR 0x00, CHR 0x00, CHR 0x00] @
     [CHR 0x03] @ ''cat'' @ [CHR 0x03] @ ''dog'' @
     [CHR 0x00, CHR 0x01] @
     [CHR 0x01, CHR 0x00, CHR 0x00, CHR 0x00] @ [CHR 0x00, CHR 0x00, CHR 0x00, CHR 0x00] @
     [CHR 0x00, CHR 0x00, CHR 0x00, CHR 0x00] @ [CHR 0x01, CHR 0x00, CHR 0x00, CHR 0x00]"

text \<open>The scenario of the spec after the lookup of \<open>cats\<close>, which creates the composed
  id 2 with the constituent 0.\<close>

definition cats :: embedding where
  "cats = cat_dog\<lparr>subforms := [[], [], [0]],
            previous_weights := [[], [], [0, 0, 0]],
            weights := [1, 0, 0, 1, 0, 0],
            decomposed_forms := [(''cats'', 2)]\<rparr>"

text \<open>\<open>cats\<close> after \<open>weight(2)\<close> has materialized the row \<open>[1, 0]\<close> of the composed
  id and an optimizer step has overwritten that row with \<open>[3, 4]\<close>.\<close>

definition cats_trained :: embedding where
  "cats_trained = cats\<lparr>weights := [1, 0, 0, 1, 3, 4],
            previous_weights := [[], [], [1, 0, 1]],
            active_subforms := [2]\<rparr>"

text \<open>
  The 16 bytes of the four floats of \<open>cat_dog\<close>, and a file with dimension 1 whose
  dictionary section holds the word \<open>a\<close> twice, followed by two floats.
\<close>

definition cat_dog_floats :: string where
  "cat_dog_floats =
     [CHR 0x01, CHR 0x00, CHR 0x00, CHR 0x00] @ [CHR 0x00, CHR 0x00, CHR 0x00, CHR 0x00] @
     [CHR 0x00, CHR 0x00, CHR 0x00, CHR 0x00] @ [CHR 0x01, CHR 0x00, CHR 0x00, CHR 0x00]"

definition duplicate_file :: string where
  "duplicate_file =
     [CHR 0x01, CHR 0x00, CHR 0x00, CHR 0x00] @
     [CHR 0x02, CHR 0x00, CHR 0x00, CHR 0x00] @
     [CHR 0x01] @ ''a'' @ [CHR 0x01] @ ''a'' @
     [CHR 0x00, CHR 0x00] @
     [CHR 0x07, CHR 0x00, CHR 0x00, CHR 0x00] @ [CHR 0x09, CHR 0x00, CHR 0x00, CHR 0x00]"

text \<open>
  An embedding in subform mode whose dictionary holds one n-gram of four characters and
  six bytes: the markers around two characters of two bytes each (\<open>0xC4 0x8D\<close>).
\<close>

definition two_byte :: embedding where
  "two_byte = \<lparr>dimension = 1, updatable_index = 2147483647, unknown_index = - 1,
     dictionary = [([CHR ''<'', CHR 0xC4, CHR 0x8D, CHR 0xC4, CHR 0x8D, CHR ''>''], 0)],
     weights = [1], subform = True,
     subforms = [[]], previous_weights = [[]], active_subforms = [],
     decomposed_forms = []\<rparr>"

section \<open>The rows of an embedding and its invariant\<close>

text \<open>
  \<open>load\<close> creates \<open>dictionary.size() + (unknown_index >= 0)\<close> rows; the ids from there on
  are the composed ids that \<open>lookup_word\<close> appends in subform mode.
\<close>

definition loaded_rows :: "embedding \<Rightarrow> nat" where
  "loaded_rows s = length (dictionary s) + (if unknown_index s \<ge> 0 then 1 else 0)"

definition composed :: "embedding \<Rightarrow> int \<Rightarrow> bool" where
  "composed s ident \<longleftrightarrow> int (loaded_rows s) \<le> ident \<and> ident < int (length (subforms s))"

text \<open>The cache slot of a composed id is stale when its validity flag is 0.\<close>

definition stale :: "embedding \<Rightarrow> int \<Rightarrow> bool" where
  "stale s ident \<longleftrightarrow> previous_weights s ! nat ident ! dimension s = 0"

text \<open>The row of an id in the matrix of weights, and its \<open>j\<close>-th entry.\<close>

definition row :: "embedding \<Rightarrow> int \<Rightarrow> real list" where
  "row s ident = take (dimension s) (drop (nat ident * dimension s) (weights s))"

definition entry :: "embedding \<Rightarrow> int \<Rightarrow> nat \<Rightarrow> real" where
  "entry s ident j = weights s ! (nat ident * dimension s + j)"

text \<open>
  The change that \<open>update_weights\<close> hands down from a composed id to each of its
  constituents: the current row minus the cached snapshot, divided by the number of
  constituents.
\<close>

definition delta :: "embedding \<Rightarrow> int \<Rightarrow> nat \<Rightarrow> real" where
  "delta s ident j =
     (entry s ident j - previous_weights s ! nat ident ! j) / real (length (subforms s ! nat ident))"

definition plain_row :: "embedding \<Rightarrow> nat \<Rightarrow> bool" where
  "plain_row s i \<longleftrightarrow> subforms s ! i = [] \<and> previous_weights s ! i = []"

definition composed_row :: "embedding \<Rightarrow> nat \<Rightarrow> bool" where
  "composed_row s i \<longleftrightarrow>
     subforms s ! i \<noteq> [] \<and> sorted (subforms s ! i) \<and> distinct (subforms s ! i) \<and>
     (\<forall>c \<in> set (subforms s ! i). 0 \<le> c \<and> c < int (loaded_rows s)) \<and>
     length (previous_weights s ! i) = dimension s + 1 \<and>
     (previous_weights s ! i ! dimension s \<noteq> 0 \<longleftrightarrow> int i \<in> set (active_subforms s))"

definition invariant :: "embedding \<Rightarrow> bool" where
  "invariant s \<longleftrightarrow>
     0 < dimension s \<and>
     length (weights s) = length (subforms s) * dimension s \<and>
     length (previous_weights s) = length (subforms s) \<and>
     loaded_rows s \<le> length (subforms s) \<and>
     (\<forall>(w, v) \<in> set (dictionary s). 0 \<le> v \<and> v < int (length (dictionary s))) \<and>
     (0 \<le> unknown_index s \<longrightarrow> unknown_index s = int (length (dictionary s))) \<and>
     (\<forall>i \<in> {..<length (subforms s)}.
        if i < loaded_rows s then plain_row s i else composed_row s i) \<and>
     distinct (active_subforms s) \<and>
     (\<forall>a \<in> set (active_subforms s). composed s a)"

text \<open>
  The memo \<open>decomposed_forms\<close>: a word is mapped to a negative value or to a composed id,
  and no composed id is the value of two words.
\<close>

definition memo_invariant :: "embedding \<Rightarrow> bool" where
  "memo_invariant s \<longleftrightarrow>
     (\<forall>w v. dict_find (decomposed_forms s) w = Some v \<longrightarrow> v < 0 \<or> composed s v) \<and>
     (\<forall>w w' v. dict_find (decomposed_forms s) w = Some v \<and>
               dict_find (decomposed_forms s) w' = Some v \<and> 0 \<le> v \<longrightarrow> w = w')"

text \<open>
  The matrix of weights has at most \<open>2 ^ 32\<close> entries, so that the 32-bit index
  \<open>id * dimension + j\<close> of an entry of a row does not wrap around.
\<close>

definition fits :: "embedding \<Rightarrow> bool" where
  "fits s \<longleftrightarrow> length (weights s) \<le> 2 ^ 32"

text \<open>The list that \<open>lookup_subform\<close> stores for a new composed id.\<close>

definition new_subforms :: "embedding \<Rightarrow> string \<Rightarrow> int list" where
  "new_subforms s word =
     (let back = outer_loop (dictionary s) (''<'' @ word @ ''>'') []
      in remdups_adj (sort (if back = [] then [unknown_index s] else back)))"

section \<open>The embeddings that a program can reach\<close>

text \<open>
  A freshly constructed embedding has empty containers. \<open>load\<close> is run once on it; then
  \<open>lookup_word\<close>, \<open>weight\<close> and \<open>update_weights\<close> are called in any order, and the
  caller may write to the weights through the pointers that the non-const \<open>weight\<close>
  returns (the optimizer step of the spec), which changes values of the vector of
  weights but not its size.
\<close>

definition fresh :: "embedding \<Rightarrow> bool" where
  "fresh s \<longleftrightarrow>
     dictionary s = [] \<and> weights s = [] \<and> subforms s = [] \<and> previous_weights s = [] \<and>
     active_subforms s = [] \<and> decomposed_forms s = []"

inductive reachable :: "embedding \<Rightarrow> bool" where
  r_load: "fresh s0 \<Longrightarrow> load float_of s0 dat = Inr (s, rest) \<Longrightarrow> reachable s"
| r_lookup: "reachable s \<Longrightarrow> lookup_word cat lower s word = (i, s') \<Longrightarrow> reachable s'"
| r_weight: "reachable s \<Longrightarrow> weight s ident = Inr (r, s') \<Longrightarrow> reachable s'"
| r_update: "reachable s \<Longrightarrow> update_weights s = Inr s' \<Longrightarrow> reachable s'"
| r_write: "reachable s \<Longrightarrow> length ws = length (weights s) \<Longrightarrow> reachable (s\<lparr>weights := ws\<rparr>)"

section \<open>Properties of the loops of \<open>lookup_word\<close>\<close>



lemma utf8_decode_Nil [simp]: "utf8_decode [] = []"
  by (simp add: utf8_decode_def)

lemma map_filter_append: "List.map_filter f (xs @ ys) = List.map_filter f xs @ List.map_filter f ys"
  by (simp add: List.map_filter_def)

lemma inner_loop_ngrams_at:
  "inner_loop d form form 0 acc = acc @ List.map_filter (dict_find d) (ngrams_at form)"
  by (simp add: inner_loop.simps [of d form] ngrams_at_def Let_def List.map_filter_simps
      split: option.splits)

lemma outer_loop_ngrams:
  "outer_loop d form acc = acc @ List.map_filter (dict_find d) (ngrams form)"
proof (induction d form acc rule: outer_loop.induct)
  case (1 d form acc)
  show ?case
  proof (cases "form = []")
    case True
    then show ?thesis by (simp add: outer_loop.simps ngrams.simps List.map_filter_simps)
  next
    case False
    with 1 show ?thesis
      by (simp add: outer_loop.simps [of d form] ngrams.simps [of form]
          inner_loop_ngrams_at map_filter_append)
  qed
qed

lemma outer_loop_empty:
  "outer_loop d form [] = [] \<longleftrightarrow> (\<forall>g \<in> set (ngrams form). dict_find d g = None)"
  by (auto simp: outer_loop_ngrams List.map_filter_def filter_empty_conv)

lemma set_outer_loop:
  "set (outer_loop d form []) = {i. \<exists>g \<in> set (ngrams form). dict_find d g = Some i}"
  by (force simp: outer_loop_ngrams List.map_filter_def)

text \<open>
  In a string of single-byte characters a character is an element of the list, and the
  n-grams are the substrings of 2 to 4 elements.
\<close>

lemma utf8_decode_ascii: "(of_char c :: nat) < 0x80 \<Longrightarrow> utf8_decode (c # rest) = rest"
  by (simp add: utf8_decode_def announced_def)

lemma ngrams_at_ascii:
  assumes "\<forall>c\<in>set form. (of_char c :: nat) < 0x80"
  shows "ngrams_at form = map (\<lambda>n. take n form) (filter (\<lambda>n. n \<le> length form) [2, 3, 4])"
proof -
  consider "form = []" | a where "form = [a]" | a b where "form = [a, b]"
    | a b c where "form = [a, b, c]" | a b c e rest where "form = a # b # c # e # rest"
    by (metis list.exhaust)
  then show ?thesis
    using assms by cases (simp_all add: ngrams_at_def utf8_decode_ascii)
qed

lemma set_ngrams_ascii:
  assumes "\<forall>c\<in>set m. (of_char c :: nat) < 0x80"
  shows "set (ngrams m) =
           {g. (\<exists>pre suf. m = pre @ g @ suf) \<and> 2 \<le> length g \<and> length g \<le> 4}"
  using assms
proof (induction m)
  case Nil
  then show ?case by (auto simp: ngrams.simps)
next
  case (Cons c form)
  from Cons.prems have IH: "set (ngrams form) =
      {g. (\<exists>pre suf. form = pre @ g @ suf) \<and> 2 \<le> length g \<and> length g \<le> 4}"
    by (intro Cons.IH) simp
  from Cons.prems have unfold: "ngrams (c # form) = ngrams_at (c # form) @ ngrams form"
    by (simp add: ngrams.simps [of "c # form"] utf8_decode_ascii)
  note at = ngrams_at_ascii [OF Cons.prems]
  have pre: "{g. (\<exists>pre suf. c # form = pre @ g @ suf) \<and> 2 \<le> length g \<and> length g \<le> 4} =
     {g. (\<exists>suf. c # form = g @ suf) \<and> 2 \<le> length g \<and> length g \<le> 4} \<union>
     {g. (\<exists>pre suf. form = pre @ g @ suf) \<and> 2 \<le> length g \<and> length g \<le> 4}" (is "?A = ?B \<union> ?C")
  proof
    show "?A \<subseteq> ?B \<union> ?C"
    proof
      fix g assume "g \<in> ?A"
      then obtain pre suf where g: "c # form = pre @ g @ suf" "2 \<le> length g" "length g \<le> 4"
        by blast
      show "g \<in> ?B \<union> ?C"
      proof (cases pre)
        case Nil
        with g show ?thesis by auto
      next
        case (Cons a pre')
        with g have "form = pre' @ g @ suf" by simp
        with g show ?thesis by blast
      qed
    qed
    show "?B \<union> ?C \<subseteq> ?A"
    proof
      fix g assume "g \<in> ?B \<union> ?C"
      then show "g \<in> ?A"
      proof
        assume "g \<in> ?B"
        then obtain suf where "c # form = [] @ g @ suf" "2 \<le> length g" "length g \<le> 4" by auto
        then show ?thesis by blast
      next
        assume "g \<in> ?C"
        then obtain pre suf where "c # form = (c # pre) @ g @ suf" "2 \<le> length g" "length g \<le> 4" by auto
        then show ?thesis by blast
      qed
    qed
  qed
  have flt: "set (filter Q [2, 3, 4 :: nat]) = {n. (n = 2 \<or> n = 3 \<or> n = 4) \<and> Q n}" for Q
    by auto
  have "set (map (\<lambda>n. take n (c # form)) (filter (\<lambda>n. n \<le> length (c # form)) [2, 3, 4])) = ?B"
    (is "?P = ?B")
  proof
    show "?P \<subseteq> ?B"
    proof
      fix g assume "g \<in> ?P"
      then obtain n where n: "g = take n (c # form)" "n \<le> length (c # form)" "n = 2 \<or> n = 3 \<or> n = 4"
        unfolding set_map flt by blast
      then have "c # form = g @ drop n (c # form)" "length g = n" by auto
      moreover from this n have "2 \<le> length g \<and> length g \<le> 4" by arith
      ultimately show "g \<in> ?B" by blast
    qed
    show "?B \<subseteq> ?P"
    proof
      fix g assume "g \<in> ?B"
      then obtain suf where g: "c # form = g @ suf" "2 \<le> length g" "length g \<le> 4" by blast
      then have "g = take (length g) (c # form)" "length g \<le> length (c # form)"
        by (metis append_eq_conv_conj, metis length_append le_add1)
      moreover from g have "length g = 2 \<or> length g = 3 \<or> length g = 4" by auto
      ultimately show "g \<in> ?P"
        unfolding set_map flt by blast
    qed
  qed
  then show ?case
    unfolding pre unfold at set_append IH by simp
qed

text \<open>The n-grams of the marked forms of \<open>cat\<close> and \<open>cats\<close>.\<close>

lemma ngrams_cat:
  "ngrams ''<cat>'' =
     [''<c'', ''<ca'', ''<cat'', ''ca'', ''cat'', ''cat>'', ''at'', ''at>'', ''t>'']"
  by (simp add: ngrams.simps ngrams_at_def utf8_decode_def announced_def continuation_byte_def)

lemma ngrams_cats:
  "ngrams ''<cats>'' =
     [''<c'', ''<ca'', ''<cat'', ''ca'', ''cat'', ''cats'', ''at'', ''ats'', ''ats>'',
      ''ts'', ''ts>'', ''s>'']"
  by (simp add: ngrams.simps ngrams_at_def utf8_decode_def announced_def continuation_byte_def)

text \<open>
  A word of two characters of two bytes each: its marked form has four characters, so the
  whole marked form is one of its n-grams, and the lookup finds it in the dictionary of
  \<open>two_byte\<close> and creates the composed id 1 with the constituent 0.
\<close>

lemma ngrams_two_byte:
  "ngrams [CHR ''<'', CHR 0xC4, CHR 0x8D, CHR 0xC4, CHR 0x8D, CHR ''>''] =
     [[CHR ''<'', CHR 0xC4, CHR 0x8D],
      [CHR ''<'', CHR 0xC4, CHR 0x8D, CHR 0xC4, CHR 0x8D],
      [CHR ''<'', CHR 0xC4, CHR 0x8D, CHR 0xC4, CHR 0x8D, CHR ''>''],
      [CHR 0xC4, CHR 0x8D, CHR 0xC4, CHR 0x8D],
      [CHR 0xC4, CHR 0x8D, CHR 0xC4, CHR 0x8D, CHR ''>''],
      [CHR 0xC4, CHR 0x8D, CHR ''>'']]"
  by (simp add: ngrams.simps ngrams_at_def utf8_decode_def announced_def continuation_byte_def)

lemma lookup_word_two_byte:
  "lookup_word cat lower two_byte [CHR 0xC4, CHR 0x8D, CHR 0xC4, CHR 0x8D] =
     (1, two_byte\<lparr>subforms := [[], [0]],
           previous_weights := [[], [0, 0]],
           weights := [1, 0],
           decomposed_forms := [([CHR 0xC4, CHR 0x8D, CHR 0xC4, CHR 0x8D], 1)]\<rparr>)"
  by (simp add: two_byte_def lookup_word_def lookup_subform_def dict_find_def dict_emplace_def
      outer_loop_ngrams List.map_filter_def ngrams_two_byte)

section \<open>Claims about \<open>lookup_word\<close> and the range check of \<open>weight\<close>\<close>

text \<open>
  Claim C1, as amended. Outside subform mode, a word that is in the dictionary verbatim is
  resolved to its dictionary id before any heuristic is tried, and the embedding is left
  as it was. (In subform mode \<open>lookup_word\<close> never looks the whole word up in the
  dictionary; see the counterexample.)
\<close>

theorem lookup_word_verbatim:
  "\<not> subform s \<Longrightarrow> dict_find (dictionary s) word = Some i \<Longrightarrow>
   lookup_word cat lower s word = (i, s)"
  by (simp add: lookup_word_def lookup_heuristic_def)

text \<open>The theorem at the word \<open>the\<close> of a one-word dictionary.\<close>

theorem lookup_word_verbatim_witness:
  "\<not> subform the_only \<and> dict_find (dictionary the_only) ''the'' = Some 0 \<and>
   lookup_word ascii_category ascii_lowercase the_only ''the'' = (0, the_only)"
  using lookup_word_verbatim [of the_only "''the''" 0 ascii_category ascii_lowercase]
  by (simp add: the_only_def dict_find_def)

text \<open>
  Claim C1 as stated fails in subform mode: in the scenario of the spec the word \<open>cat\<close>
  has the dictionary id 0, and \<open>lookup_word\<close> returns the new composed id 2.
\<close>

theorem lookup_word_subform_counterexample:
  "subform cat_dog \<and> dict_find (dictionary cat_dog) ''cat'' = Some 0 \<and>
   fst (lookup_word ascii_category ascii_lowercase cat_dog ''cat'') = 2"
  by (simp add: cat_dog_def lookup_word_def lookup_subform_def dict_find_def dict_emplace_def
      outer_loop_ngrams List.map_filter_def ngrams_cat)

text \<open>
  Claim C9 at the input where the code departs from it. The embedding has one row of
  dimension 3, so every id from 1 on is out of range. For the id 1431655766 the unsigned
  product \<open>id * dimension\<close> is \<open>2 ^ 32 + 2\<close>, that is 2 after wrap-around, which is below
  \<open>weights.size() = 3\<close>: outside subform mode \<open>weight\<close> returns the pointer
  \<open>weights.data() + 2\<close> instead of \<open>nullptr\<close>, and in subform mode it reads
  \<open>previous_weights\<close> beyond its end.
\<close>

theorem weight_offset_wraps:
  "length (weights the_only) div dimension the_only = 1 \<and>
   weight the_only 1431655766 = Inr (Some 2, the_only) \<and>
   weight (the_only\<lparr>subform := True\<rparr>) 1431655766 = Inl OutOfRange"
  by (simp add: the_only_def weight_def row_offset_def u32_def)



text \<open>
  Claim C7. In subform mode, for a word that is not yet in \<open>decomposed_forms\<close> and none
  of whose n-grams (the substrings of 2 to 4 UTF-8 characters of the marked form) is in
  the dictionary: with an unknown id, a new composed id is created
  whose only constituent is the unknown id; without one, the negative \<open>unknown_index\<close> is
  recorded for the word and returned, and \<open>subforms\<close>, \<open>previous_weights\<close> and
  \<open>weights\<close> stay as they were.
\<close>

theorem lookup_word_no_ngram:
  assumes "subform s" and "dict_find (decomposed_forms s) word = None"
    and "\<forall>g \<in> set (ngrams (''<'' @ word @ ''>'')). dict_find (dictionary s) g = None"
  shows "(0 \<le> unknown_index s \<longrightarrow>
            lookup_word cat lower s word =
              (int (length (subforms s)),
               s\<lparr>subforms := subforms s @ [[unknown_index s]],
                 previous_weights := previous_weights s @ [replicate (dimension s + 1) 0],
                 weights := weights s @ replicate (dimension s) 0,
                 decomposed_forms := decomposed_forms s @ [(word, int (length (subforms s)))]\<rparr>)) \<and>
         (unknown_index s < 0 \<longrightarrow>
            lookup_word cat lower s word =
              (unknown_index s,
               s\<lparr>decomposed_forms := decomposed_forms s @ [(word, unknown_index s)]\<rparr>))"
proof -
  have hits: "outer_loop (dictionary s) (''<'' @ word @ ''>'') [] = []"
    using assms(3) by (simp add: outer_loop_empty del: outer_loop.simps)
  show ?thesis
    using assms(1,2) hits
    by (simp add: lookup_word_def lookup_subform_def dict_emplace_def Let_def del: outer_loop.simps)
qed

text \<open>The theorem at the word \<open>xyz\<close>, without and with an unknown id.\<close>

theorem lookup_word_no_ngram_witness:
  "lookup_word ascii_category ascii_lowercase cat_dog ''xyz'' =
     (- 1, cat_dog\<lparr>decomposed_forms := [(''xyz'', - 1)]\<rparr>) \<and>
   lookup_word ascii_category ascii_lowercase cat_dog_unknown ''xyz'' =
     (3, cat_dog_unknown\<lparr>subforms := [[], [], [], [2]],
           previous_weights := [[], [], [], [0, 0, 0]],
           weights := [1, 0, 0, 1, 5, 7, 0, 0],
           decomposed_forms := [(''xyz'', 3)]\<rparr>)"
proof -
  have 1: "subform cat_dog" "dict_find (decomposed_forms cat_dog) ''xyz'' = None"
    "\<forall>g \<in> set (ngrams (''<'' @ ''xyz'' @ ''>'')). dict_find (dictionary cat_dog) g = None"
    "unknown_index cat_dog < 0"
    by (simp_all add: cat_dog_def dict_find_def ngrams.simps ngrams_at_def utf8_decode_def announced_def continuation_byte_def)
  have 2: "subform cat_dog_unknown" "dict_find (decomposed_forms cat_dog_unknown) ''xyz'' = None"
    "\<forall>g \<in> set (ngrams (''<'' @ ''xyz'' @ ''>'')). dict_find (dictionary cat_dog_unknown) g = None"
    "0 \<le> unknown_index cat_dog_unknown"
    by (simp_all add: cat_dog_unknown_def dict_find_def ngrams.simps ngrams_at_def utf8_decode_def announced_def continuation_byte_def)
  from lookup_word_no_ngram [OF 1(1,2,3), of ascii_category ascii_lowercase] 1(4)
  have "lookup_word ascii_category ascii_lowercase cat_dog ''xyz'' =
     (- 1, cat_dog\<lparr>decomposed_forms := [(''xyz'', - 1)]\<rparr>)"
    by (simp add: cat_dog_def)
  moreover
  from lookup_word_no_ngram [OF 2(1,2,3), of ascii_category ascii_lowercase] 2(4)
  have "lookup_word ascii_category ascii_lowercase cat_dog_unknown ''xyz'' =
     (3, cat_dog_unknown\<lparr>subforms := [[], [], [], [2]],
           previous_weights := [[], [], [], [0, 0, 0]],
           weights := [1, 0, 0, 1, 5, 7, 0, 0],
           decomposed_forms := [(''xyz'', 3)]\<rparr>)"
    by (simp add: cat_dog_unknown_def numeral_2_eq_2)
  ultimately show ?thesis by simp
qed

section \<open>The invariant holds in every reachable embedding\<close>

lemma distinct_remdups_adj_sorted: "sorted xs \<Longrightarrow> distinct (remdups_adj xs)"
  by (induction xs rule: remdups_adj.induct) auto

lemma dict_find_in_set: "dict_find d g = Some i \<Longrightarrow> (g, i) \<in> set d"
  by (simp add: dict_find_def map_of_SomeD)

lemma outer_loop_hits_in_dictionary:
  "c \<in> set (outer_loop d form []) \<Longrightarrow> \<exists>g. (g, c) \<in> set d"
  by (auto simp: set_outer_loop dest: dict_find_in_set)

lemma sort_Nil_iff: "sort xs = [] \<longleftrightarrow> xs = []"
  by (metis length_sort length_0_conv)

lemma loaded_rows_update [simp]:
  "loaded_rows (s\<lparr>decomposed_forms := m\<rparr>) = loaded_rows s"
  "loaded_rows (s\<lparr>weights := w\<rparr>) = loaded_rows s"
  "loaded_rows (s\<lparr>subforms := sf\<rparr>) = loaded_rows s"
  "loaded_rows (s\<lparr>previous_weights := p\<rparr>) = loaded_rows s"
  "loaded_rows (s\<lparr>active_subforms := a\<rparr>) = loaded_rows s"
  by (simp_all add: loaded_rows_def)

lemma composed_update [simp]:
  "composed (s\<lparr>decomposed_forms := m\<rparr>) = composed s"
  "composed (s\<lparr>weights := w\<rparr>) = composed s"
  "composed (s\<lparr>previous_weights := p\<rparr>) = composed s"
  "composed (s\<lparr>active_subforms := a\<rparr>) = composed s"
  by (simp_all add: composed_def fun_eq_iff)

lemma plain_row_update [simp]:
  "plain_row (s\<lparr>decomposed_forms := m\<rparr>) = plain_row s"
  "plain_row (s\<lparr>weights := w\<rparr>) = plain_row s"
  "plain_row (s\<lparr>active_subforms := a\<rparr>) = plain_row s"
  by (simp_all add: plain_row_def fun_eq_iff)

lemma composed_row_update [simp]:
  "composed_row (s\<lparr>decomposed_forms := m\<rparr>) = composed_row s"
  "composed_row (s\<lparr>weights := w\<rparr>) = composed_row s"
  by (simp_all add: composed_row_def fun_eq_iff)

lemma plain_row_cong:
  "subforms s' ! i = subforms s ! i \<Longrightarrow> previous_weights s' ! i = previous_weights s ! i \<Longrightarrow>
   plain_row s' i = plain_row s i"
  by (simp add: plain_row_def)

lemma composed_row_cong:
  "subforms s' ! i = subforms s ! i \<Longrightarrow> previous_weights s' ! i = previous_weights s ! i \<Longrightarrow>
   dimension s' = dimension s \<Longrightarrow> loaded_rows s' = loaded_rows s \<Longrightarrow>
   (int i \<in> set (active_subforms s')) = (int i \<in> set (active_subforms s)) \<Longrightarrow>
   composed_row s' i = composed_row s i"
  by (simp add: composed_row_def)

lemma invariant_update [simp]:
  "invariant (s\<lparr>decomposed_forms := m\<rparr>) = invariant s"
  by (simp add: invariant_def)

lemma invariant_write:
  "invariant s \<Longrightarrow> length ws = length (weights s) \<Longrightarrow> invariant (s\<lparr>weights := ws\<rparr>)"
  by (simp add: invariant_def)

lemma lookup_subform_cases:
  "lookup_subform s word =
    (case dict_find (decomposed_forms s) word of
       Some second \<Rightarrow> (second, s)
     | None \<Rightarrow>
        if outer_loop (dictionary s) (''<'' @ word @ ''>'') [] = [] \<and> unknown_index s < 0 then
          (unknown_index s,
           s\<lparr>decomposed_forms := decomposed_forms s @ [(word, unknown_index s)]\<rparr>)
        else
          (int (length (subforms s)),
           s\<lparr>subforms := subforms s @ [new_subforms s word],
             previous_weights := previous_weights s @ [replicate (dimension s + 1) 0],
             weights := weights s @ replicate (dimension s) 0,
             decomposed_forms := decomposed_forms s @ [(word, int (length (subforms s)))]\<rparr>))"
  by (simp add: lookup_subform_def new_subforms_def Let_def dict_emplace_def
      split: option.splits del: outer_loop.simps)

lemma new_subforms_props:
  assumes "invariant s" and "\<not> (outer_loop (dictionary s) (''<'' @ word @ ''>'') [] = [] \<and> unknown_index s < 0)"
  shows "new_subforms s word \<noteq> []" "sorted (new_subforms s word)" "distinct (new_subforms s word)"
    "\<forall>c \<in> set (new_subforms s word). 0 \<le> c \<and> c < int (loaded_rows s)"
proof -
  let ?hits = "outer_loop (dictionary s) (''<'' @ word @ ''>'') []"
  let ?l = "if ?hits = [] then [unknown_index s] else ?hits"
  have eq: "new_subforms s word = remdups_adj (sort ?l)"
    by (simp add: new_subforms_def Let_def del: outer_loop.simps)
  show "new_subforms s word \<noteq> []" unfolding eq by (simp add: sort_Nil_iff del: outer_loop.simps)
  show "sorted (new_subforms s word)" unfolding eq by (simp del: outer_loop.simps)
  show "distinct (new_subforms s word)" unfolding eq
    by (rule distinct_remdups_adj_sorted) (simp del: outer_loop.simps)
  have dict: "\<And>g v. (g, v) \<in> set (dictionary s) \<Longrightarrow> 0 \<le> v \<and> v < int (length (dictionary s))"
    using assms(1) by (auto simp: invariant_def)
  show "\<forall>c \<in> set (new_subforms s word). 0 \<le> c \<and> c < int (loaded_rows s)"
  proof
    fix c assume "c \<in> set (new_subforms s word)"
    then have c: "c \<in> set ?l" unfolding eq by (simp del: outer_loop.simps)
    show "0 \<le> c \<and> c < int (loaded_rows s)"
    proof (cases "?hits = []")
      case True
      with c assms(2) have "c = unknown_index s" "0 \<le> unknown_index s" by auto
      moreover from this assms(1) have "unknown_index s = int (length (dictionary s))"
        by (simp add: invariant_def)
      ultimately show ?thesis by (simp add: loaded_rows_def)
    next
      case False
      with c have "c \<in> set ?hits" by simp
      then obtain g where "(g, c) \<in> set (dictionary s)"
        using outer_loop_hits_in_dictionary by blast
      from dict [OF this] show ?thesis by (simp add: loaded_rows_def)
    qed
  qed
qed

lemma lookup_subform_invariant:
  assumes "invariant s"
  shows "invariant (snd (lookup_subform s word))"
proof (cases "dict_find (decomposed_forms s) word")
  case (Some v)
  with assms show ?thesis by (simp add: lookup_subform_cases)
next
  case None
  show ?thesis
  proof (cases "outer_loop (dictionary s) (''<'' @ word @ ''>'') [] = [] \<and> unknown_index s < 0")
    case True
    with None have "snd (lookup_subform s word) =
        s\<lparr>decomposed_forms := decomposed_forms s @ [(word, unknown_index s)]\<rparr>"
      by (simp add: lookup_subform_cases del: outer_loop.simps)
    with assms show ?thesis by simp
  next
    case False
    let ?s' = "s\<lparr>subforms := subforms s @ [new_subforms s word],
             previous_weights := previous_weights s @ [replicate (dimension s + 1) 0],
             weights := weights s @ replicate (dimension s) 0,
             decomposed_forms := decomposed_forms s @ [(word, int (length (subforms s)))]\<rparr>"
    from None False have eq: "snd (lookup_subform s word) = ?s'"
      by (auto simp add: lookup_subform_cases simp del: outer_loop.simps)
    note new = new_subforms_props [OF assms False]
    have lr: "loaded_rows ?s' = loaded_rows s" by (simp add: loaded_rows_def)
    have len: "length (previous_weights s) = length (subforms s)"
      "loaded_rows s \<le> length (subforms s)"
      using assms by (simp_all add: invariant_def)
    have act: "\<forall>a \<in> set (active_subforms s). composed s a"
      using assms by (simp add: invariant_def)
    have rows: "\<forall>i \<in> {..<length (subforms ?s')}.
        if i < loaded_rows ?s' then plain_row ?s' i else composed_row ?s' i"
    proof
      fix i assume "i \<in> {..<length (subforms ?s')}"
      then consider "i < length (subforms s)" | "i = length (subforms s)" by fastforce
      then show "if i < loaded_rows ?s' then plain_row ?s' i else composed_row ?s' i"
      proof cases
        case 1
        with assms have "if i < loaded_rows s then plain_row s i else composed_row s i"
          by (simp add: invariant_def)
        moreover from 1 len have "plain_row ?s' i = plain_row s i"
          by (intro plain_row_cong) (simp_all add: nth_append)
        moreover from 1 len have "composed_row ?s' i = composed_row s i"
          by (intro composed_row_cong) (simp_all add: nth_append)
        ultimately show ?thesis by (simp only: lr)
      next
        case 2
        have "int (length (subforms s)) \<notin> set (active_subforms s)"
          using act by (auto simp: composed_def)
        with 2 len new show ?thesis
          by (simp add: composed_row_def nth_append nth_Cons')
      qed
    qed
    have "invariant ?s'"
      unfolding invariant_def
    proof (intro conjI)
      show "\<forall>i \<in> {..<length (subforms ?s')}.
        if i < loaded_rows ?s' then plain_row ?s' i else composed_row ?s' i" by (rule rows)
      show "\<forall>a \<in> set (active_subforms ?s'). composed ?s' a"
        using act by (auto simp: composed_def)
    qed (use assms in \<open>simp_all add: invariant_def algebra_simps\<close>)
    with eq show ?thesis by simp
  qed
qed

lemma lookup_word_invariant:
  "invariant s \<Longrightarrow> lookup_word cat lower s word = (i, s') \<Longrightarrow> invariant s'"
  using lookup_subform_invariant [of s word]
  by (auto simp: lookup_word_def split: if_splits)


lemma dict_find_append:
  "dict_find (d @ [(w, v)]) w' =
     (case dict_find d w' of Some x \<Rightarrow> Some x | None \<Rightarrow> if w' = w then Some v else None)"
  by (auto simp: dict_find_def map_add_def split: option.splits)

lemma lookup_subform_memo_invariant:
  assumes "invariant s" and "memo_invariant s"
  shows "memo_invariant (snd (lookup_subform s word))"
proof (cases "dict_find (decomposed_forms s) word")
  case (Some v)
  with assms show ?thesis by (simp add: lookup_subform_cases)
next
  case None
  have old: "\<And>w v. dict_find (decomposed_forms s) w = Some v \<Longrightarrow> v < 0 \<or> composed s v"
    and inj: "\<And>w w' v. dict_find (decomposed_forms s) w = Some v \<Longrightarrow>
               dict_find (decomposed_forms s) w' = Some v \<Longrightarrow> 0 \<le> v \<Longrightarrow> w = w'"
    using assms(2) unfolding memo_invariant_def by blast+
  show ?thesis
  proof (cases "outer_loop (dictionary s) (''<'' @ word @ ''>'') [] = [] \<and> unknown_index s < 0")
    case True
    with None have eq: "snd (lookup_subform s word) =
        s\<lparr>decomposed_forms := decomposed_forms s @ [(word, unknown_index s)]\<rparr>"
      by (simp add: lookup_subform_cases del: outer_loop.simps)
    show ?thesis
      unfolding eq memo_invariant_def using True old inj
      by (auto simp: dict_find_append split: option.splits if_splits)
  next
    case False
    let ?n = "int (length (subforms s))"
    let ?s' = "s\<lparr>subforms := subforms s @ [new_subforms s word],
             previous_weights := previous_weights s @ [replicate (dimension s + 1) 0],
             weights := weights s @ replicate (dimension s) 0,
             decomposed_forms := decomposed_forms s @ [(word, ?n)]\<rparr>"
    from None False have eq: "snd (lookup_subform s word) = ?s'"
      by (auto simp add: lookup_subform_cases simp del: outer_loop.simps)
    have mono: "composed s v \<Longrightarrow> composed ?s' v" for v
      by (simp add: composed_def loaded_rows_def)
    have new: "composed ?s' ?n"
      using assms(1) by (simp add: composed_def invariant_def loaded_rows_def)
    have fresh: "composed s v \<Longrightarrow> v \<noteq> ?n" for v
      by (auto simp: composed_def)
    have 1: "v < 0 \<or> composed ?s' v" if "dict_find (decomposed_forms ?s') w = Some v" for w v
      using that old [of w v] mono new
      by (auto simp: dict_find_append split: option.splits if_splits)
    have 2: "w = w'" if "dict_find (decomposed_forms ?s') w = Some v"
      "dict_find (decomposed_forms ?s') w' = Some v" "0 \<le> v" for w w' v
      using that old [of w v] old [of w' v] inj [of w v w'] fresh [of v]
      by (auto simp: dict_find_append split: option.splits if_splits)
    show ?thesis
      unfolding eq memo_invariant_def using 1 2 by blast
  qed
qed

lemma length_for_j:
  "(\<And>j w. length (body j w) = length w) \<Longrightarrow> length (for_j d body w) = length w"
  unfolding for_j_def by (induction d arbitrary: w) simp_all

lemma length_foldl_for_j:
  "(\<And>x j w. length (body x j w) = length w) \<Longrightarrow>
   length (foldl (\<lambda>w x. for_j d (body x) w) w xs) = length w"
  by (induction xs arbitrary: w) (simp_all add: length_for_j)

lemma length_foldl_update: "length (foldl (\<lambda>p j. p[j := f j]) p js) = length p"
  by (induction js arbitrary: p) simp_all

lemma materialize_shape:
  "\<exists>w' p. materialize s ident =
            s\<lparr>weights := w',
              previous_weights := (previous_weights s)[nat ident := p],
              active_subforms := active_subforms s @ [ident]\<rparr> \<and>
          length w' = length (weights s) \<and>
          length p = length (previous_weights s ! nat ident) \<and>
          (dimension s < length p \<longrightarrow> p ! dimension s = 1)"
  unfolding materialize_def Let_def
  by (intro exI conjI, rule refl)
     (simp_all add: length_for_j length_foldl_for_j length_foldl_update)

lemma update_step_shape:
  "\<exists>w'. update_step s ident =
          s\<lparr>weights := w',
            previous_weights :=
              (previous_weights s)[nat ident := (previous_weights s ! nat ident)[dimension s := 0]]\<rparr> \<and>
        length w' = length (weights s)"
  unfolding update_step_def Let_def
  by (intro exI conjI, rule refl) (simp_all add: length_for_j length_foldl_for_j)

lemma weight_cases:
  assumes "weight s ident = Inr (r, s')"
  shows "s' = s \<or>
         (s' = materialize s ident \<and> subform s \<and> 0 \<le> ident \<and> nat ident < length (previous_weights s) \<and>
          previous_weights s ! nat ident \<noteq> [] \<and>
          dimension s < length (previous_weights s ! nat ident) \<and>
          previous_weights s ! nat ident ! dimension s = 0 \<and> materialize_in_range s ident)"
  using assms by (auto simp: weight_def split: if_splits)

lemma invariant_row:
  "invariant s \<Longrightarrow> i < length (subforms s) \<Longrightarrow>
   (if i < loaded_rows s then plain_row s i else composed_row s i)"
  by (simp add: invariant_def)

lemma weight_invariant:
  assumes "invariant s" and "weight s ident = Inr (r, s')"
  shows "invariant s'"
proof -
  from weight_cases [OF assms(2)]
  show ?thesis
  proof
    assume "s' = s" with assms(1) show ?thesis by simp
  next
    assume m: "s' = materialize s ident \<and> subform s \<and> 0 \<le> ident \<and> nat ident < length (previous_weights s) \<and>
          previous_weights s ! nat ident \<noteq> [] \<and>
          dimension s < length (previous_weights s ! nat ident) \<and>
          previous_weights s ! nat ident ! dimension s = 0 \<and> materialize_in_range s ident"
    obtain w' p where shape: "materialize s ident =
            s\<lparr>weights := w',
              previous_weights := (previous_weights s)[nat ident := p],
              active_subforms := active_subforms s @ [ident]\<rparr>"
      and lw: "length w' = length (weights s)"
      and lp: "length p = length (previous_weights s ! nat ident)"
      and flag: "dimension s < length p \<longrightarrow> p ! dimension s = 1"
      using materialize_shape by blast
    let ?s' = "s\<lparr>weights := w',
              previous_weights := (previous_weights s)[nat ident := p],
              active_subforms := active_subforms s @ [ident]\<rparr>"
    let ?k = "nat ident"
    have len: "length (previous_weights s) = length (subforms s)"
      using assms(1) by (simp add: invariant_def)
    with m have k: "?k < length (subforms s)" by simp
    from invariant_row [OF assms(1) k] m have crow: "composed_row s ?k" and ge: "\<not> ?k < loaded_rows s"
      by (auto simp: plain_row_def split: if_splits)
    from crow m have notin: "ident \<notin> set (active_subforms s)"
      by (simp add: composed_row_def)
    have comp: "composed s ident"
      using ge k m unfolding composed_def by linarith
    have rows: "\<forall>i \<in> {..<length (subforms ?s')}.
        if i < loaded_rows ?s' then plain_row ?s' i else composed_row ?s' i"
    proof
      fix i assume "i \<in> {..<length (subforms ?s')}"
      then have i: "i < length (subforms s)" by simp
      show "if i < loaded_rows ?s' then plain_row ?s' i else composed_row ?s' i"
      proof (cases "i = ?k")
        case True
        have "composed_row ?s' ?k"
          using crow m lp flag len k by (simp add: composed_row_def)
        with True ge show ?thesis by simp
      next
        case False
        then have ne: "int i \<noteq> ident" by auto
        have "plain_row ?s' i = plain_row s i"
          using False by (intro plain_row_cong) simp_all
        moreover have "composed_row ?s' i = composed_row s i"
          using False ne by (intro composed_row_cong) simp_all
        ultimately show ?thesis
          using invariant_row [OF assms(1) i] by simp
      qed
    qed
    have "invariant ?s'"
      unfolding invariant_def
    proof (intro conjI)
      show "\<forall>i \<in> {..<length (subforms ?s')}.
        if i < loaded_rows ?s' then plain_row ?s' i else composed_row ?s' i" by (rule rows)
      show "distinct (active_subforms ?s')"
        using assms(1) notin by (simp add: invariant_def)
      show "\<forall>a \<in> set (active_subforms ?s'). composed ?s' a"
        using assms(1) comp by (auto simp: invariant_def composed_def)
    qed (use assms(1) lw in \<open>simp_all add: invariant_def\<close>)
    with m shape show ?thesis by simp
  qed
qed


lemma update_step_invariant:
  assumes "invariant (s\<lparr>active_subforms := ident # ids\<rparr>)"
  shows "invariant ((update_step s ident)\<lparr>active_subforms := ids\<rparr>)"
proof -
  let ?s0 = "s\<lparr>active_subforms := ident # ids\<rparr>"
  obtain w' where shape: "update_step s ident =
          s\<lparr>weights := w',
            previous_weights :=
              (previous_weights s)[nat ident := (previous_weights s ! nat ident)[dimension s := 0]]\<rparr>"
    and lw: "length w' = length (weights s)"
    using update_step_shape by blast
  let ?s' = "s\<lparr>weights := w',
            previous_weights :=
              (previous_weights s)[nat ident := (previous_weights s ! nat ident)[dimension s := 0]],
            active_subforms := ids\<rparr>"
  let ?k = "nat ident"
  have comp: "composed s ident" and notin: "ident \<notin> set ids" and dist: "distinct ids"
    and act: "\<forall>a \<in> set ids. composed s a"
    using assms by (simp_all add: invariant_def)
  have len: "length (previous_weights s) = length (subforms s)"
    using assms by (simp add: invariant_def)
  from comp have k: "?k < length (subforms s)" and ge: "\<not> ?k < loaded_rows s" and pos: "0 \<le> ident"
    unfolding composed_def by linarith+
  have lr: "loaded_rows ?s' = loaded_rows s" by simp
  have row0: "i < length (subforms s) \<Longrightarrow>
      (if i < loaded_rows s then plain_row ?s0 i else composed_row ?s0 i)" for i
    using invariant_row [OF assms, of i] by simp
  from row0 [OF k] ge have crow: "composed_row ?s0 ?k" by simp
  have rows: "\<forall>i \<in> {..<length (subforms ?s')}.
      if i < loaded_rows ?s' then plain_row ?s' i else composed_row ?s' i"
  proof
    fix i assume "i \<in> {..<length (subforms ?s')}"
    then have i: "i < length (subforms s)" by simp
    show "if i < loaded_rows ?s' then plain_row ?s' i else composed_row ?s' i"
    proof (cases "i = ?k")
      case True
      have "composed_row ?s' ?k"
        using crow notin len k pos by (simp add: composed_row_def)
      with True ge show ?thesis by simp
    next
      case False
      then have ne: "int i \<noteq> ident" by auto
      have pr: "plain_row ?s' i = plain_row ?s0 i"
        using False by (intro plain_row_cong) simp_all
      have cr: "composed_row ?s' i = composed_row ?s0 i"
        using False ne by (intro composed_row_cong) simp_all
      show ?thesis
        unfolding lr pr cr by (rule row0 [OF i])
    qed
  qed
  have "invariant ?s'"
    unfolding invariant_def
  proof (intro conjI)
    show "\<forall>i \<in> {..<length (subforms ?s')}.
      if i < loaded_rows ?s' then plain_row ?s' i else composed_row ?s' i" by (rule rows)
    show "distinct (active_subforms ?s')" using dist by simp
    show "\<forall>a \<in> set (active_subforms ?s'). composed ?s' a"
      using act by (simp add: composed_def)
  qed (use assms lw in \<open>simp_all add: invariant_def\<close>)
  with shape show ?thesis by simp
qed

lemma update_loop_invariant:
  "invariant (s\<lparr>active_subforms := ids\<rparr>) \<Longrightarrow> update_loop s ids = Inr s' \<Longrightarrow>
   invariant (s'\<lparr>active_subforms := []\<rparr>)"
proof (induction ids arbitrary: s)
  case Nil
  then show ?case by simp
next
  case (Cons ident ids)
  from Cons.prems(2) have "update_loop (update_step s ident) ids = Inr s'"
    by (simp split: if_splits)
  moreover from Cons.prems(1) have "invariant ((update_step s ident)\<lparr>active_subforms := ids\<rparr>)"
    by (rule update_step_invariant)
  ultimately show ?case by (rule Cons.IH [rotated])
qed

lemma update_weights_invariant:
  assumes "invariant s" and "update_weights s = Inr s'"
  shows "invariant s'"
proof (cases "subform s")
  case False
  with assms show ?thesis by (simp add: update_weights_def)
next
  case True
  with assms(2) obtain s1 where 1: "update_loop s (active_subforms s) = Inr s1"
    and 2: "s' = s1\<lparr>active_subforms := []\<rparr>"
    by (auto simp: update_weights_def split: sum.splits)
  from assms(1) have "invariant (s\<lparr>active_subforms := active_subforms s\<rparr>)" by simp
  from update_loop_invariant [OF this 1] 2 show ?thesis by simp
qed

lemma update_loop_frame:
  "update_loop s ids = Inr s' \<Longrightarrow>
   subforms s' = subforms s \<and> decomposed_forms s' = decomposed_forms s \<and>
   dictionary s' = dictionary s \<and> unknown_index s' = unknown_index s \<and>
   dimension s' = dimension s \<and> subform s' = subform s \<and>
   length (weights s') = length (weights s)"
proof (induction ids arbitrary: s)
  case Nil
  then show ?case by simp
next
  case (Cons ident ids)
  from Cons.prems have "update_loop (update_step s ident) ids = Inr s'"
    by (simp split: if_splits)
  from Cons.IH [OF this] update_step_shape [of s ident] show ?case by auto
qed

lemma update_weights_frame:
  "update_weights s = Inr s' \<Longrightarrow>
   subforms s' = subforms s \<and> decomposed_forms s' = decomposed_forms s \<and>
   dictionary s' = dictionary s \<and> unknown_index s' = unknown_index s \<and>
   dimension s' = dimension s \<and> subform s' = subform s \<and>
   length (weights s') = length (weights s)"
  using update_loop_frame [of s "active_subforms s"]
  by (auto simp: update_weights_def split: if_splits sum.splits)

lemma load_dictionary_values:
  "load_dictionary n d dat = Inr (d', dat') \<Longrightarrow>
   \<forall>(w, v) \<in> set d. 0 \<le> v \<and> v < int (length d) \<Longrightarrow>
   \<forall>(w, v) \<in> set d'. 0 \<le> v \<and> v < int (length d')"
proof (induction n arbitrary: d dat)
  case 0
  then show ?case by simp
next
  case (Suc n)
  from Suc.prems(1) obtain word dat1 where
    rec: "load_dictionary n (dict_emplace d word (int (length d))) dat1 = Inr (d', dat')"
    by (auto split: sum.splits)
  have "\<forall>(w, v) \<in> set (dict_emplace d word (int (length d))).
          0 \<le> v \<and> v < int (length (dict_emplace d word (int (length d))))"
    using Suc.prems(2) by (auto simp: dict_emplace_def split: option.splits)
  from Suc.IH [OF rec this] show ?case .
qed

lemma length_chunks4: "length (chunks4 n bs) = n"
  by (induction n arbitrary: bs) simp_all

lemma next_float_length:
  "next_float float_of n dat = Inr (ws, dat') \<Longrightarrow> length ws = n"
  by (auto simp: next_float_def length_chunks4 split: sum.splits)

lemma load_result:
  assumes "load float_of s0 dat = Inr (s, rest)"
  shows "subforms s = resize (loaded_rows s) (subforms s0)"
    and "previous_weights s = resize (loaded_rows s) (previous_weights s0)"
    and "active_subforms s = active_subforms s0"
    and "decomposed_forms s = decomposed_forms s0"
    and "0 < dimension s"
    and "length (weights s) = dimension s * loaded_rows s"
    and "\<forall>(w, v) \<in> set (dictionary s). 0 \<le> v \<and> v < int (length (dictionary s))"
    and "0 \<le> unknown_index s \<longrightarrow> unknown_index s = int (length (dictionary s))"
proof -
  from assms obtain d dat1 where a: "next_4B dat = Inr (d, dat1)"
    by (auto simp: load_def split: sum.splits)
  with assms obtain n dat2 where b: "next_4B dat1 = Inr (n, dat2)"
    by (auto simp: load_def split: sum.splits)
  with a assms obtain dict dat3 where 1: "load_dictionary n [] dat2 = Inr (dict, dat3)"
    by (auto simp: load_def split: sum.splits)
  with a b assms obtain hu dat4 where c: "next_1B dat3 = Inr (hu, dat4)"
    by (auto simp: load_def split: sum.splits)
  with a b 1 assms obtain sub dat5 where e: "next_1B dat4 = Inr (sub, dat5)"
    by (auto simp: load_def split: sum.splits)
  with a b 1 c assms obtain ws where
    2: "next_float float_of
              (d * (length dict + (if (if hu \<noteq> 0 then int (length dict) else - 1) \<ge> 0 then 1 else 0))) dat5
            = Inr (ws, rest)"
    and 3: "d \<noteq> 0"
    and 4: "s = s0\<lparr>dimension := d, updatable_index := 2 ^ 31 - 1,
               unknown_index := (if hu \<noteq> 0 then int (length dict) else - 1),
               dictionary := dict, weights := ws, subform := (sub \<noteq> 0),
               subforms := resize (length ws div d) (subforms s0),
               previous_weights := resize (length ws div d) (previous_weights s0)\<rparr>"
    by (simp add: load_def Let_def split: sum.splits prod.splits if_splits)
  have f: "subforms s = resize (length ws div d) (subforms s0)"
    "previous_weights s = resize (length ws div d) (previous_weights s0)"
    "dimension s = d" "weights s = ws" "dictionary s = dict"
    "unknown_index s = (if hu \<noteq> 0 then int (length dict) else - 1)"
    "active_subforms s = active_subforms s0" "decomposed_forms s = decomposed_forms s0"
    by (subst 4, simp)+
  have lr: "loaded_rows s = length dict + (if hu \<noteq> 0 then 1 else 0)"
    by (simp add: loaded_rows_def f)
  from next_float_length [OF 2] have lw: "length ws = d * loaded_rows s"
    using lr by (simp split: if_splits)
  with 3 have div: "length ws div d = loaded_rows s" by simp
  show "subforms s = resize (loaded_rows s) (subforms s0)"
    using f(1) div by simp
  show "previous_weights s = resize (loaded_rows s) (previous_weights s0)"
    using f(2) div by simp
  show "active_subforms s = active_subforms s0" by (rule f)
  show "decomposed_forms s = decomposed_forms s0" by (rule f)
  show "0 < dimension s" using 3 f by simp
  show "length (weights s) = dimension s * loaded_rows s" using lw f by simp
  show "\<forall>(w, v) \<in> set (dictionary s). 0 \<le> v \<and> v < int (length (dictionary s))"
    using load_dictionary_values [OF 1] f by simp
  show "0 \<le> unknown_index s \<longrightarrow> unknown_index s = int (length (dictionary s))"
    using f by simp
qed

lemma load_invariant:
  assumes "fresh s0" and "load float_of s0 dat = Inr (s, rest)"
  shows "invariant s" and "memo_invariant s"
proof -
  note r = load_result [OF assms(2)]
  have sub: "subforms s = replicate (loaded_rows s) []"
    and prev: "previous_weights s = replicate (loaded_rows s) []"
    and act: "active_subforms s = []" and memo: "decomposed_forms s = []"
    using assms(1) r(1-4) by (simp_all add: fresh_def resize_def)
  show "invariant s"
    unfolding invariant_def
    using r(5-8) by (simp add: sub prev act plain_row_def)
  show "memo_invariant s"
    by (simp add: memo_invariant_def memo dict_find_def)
qed

lemma memo_invariant_cong:
  "decomposed_forms s' = decomposed_forms s \<Longrightarrow> subforms s' = subforms s \<Longrightarrow>
   dictionary s' = dictionary s \<Longrightarrow> unknown_index s' = unknown_index s \<Longrightarrow>
   memo_invariant s' = memo_invariant s"
  by (simp add: memo_invariant_def composed_def loaded_rows_def)

lemma weight_frame:
  "weight s ident = Inr (r, s') \<Longrightarrow>
   subforms s' = subforms s \<and> decomposed_forms s' = decomposed_forms s \<and>
   dictionary s' = dictionary s \<and> unknown_index s' = unknown_index s \<and>
   dimension s' = dimension s \<and> subform s' = subform s \<and>
   length (weights s') = length (weights s)"
  using weight_cases [of s ident r s'] materialize_shape [of s ident] by auto

lemma reachable_invariant: "reachable s \<Longrightarrow> invariant s \<and> memo_invariant s"
proof (induction rule: reachable.induct)
  case (r_load s0 float_of dat s rest)
  then show ?case using load_invariant by blast
next
  case (r_lookup s cat lower word i s')
  then have "invariant s'" using lookup_word_invariant by blast
  moreover have "memo_invariant s'"
    using r_lookup lookup_subform_memo_invariant [of s word]
    by (auto simp: lookup_word_def split: if_splits)
  ultimately show ?case by simp
next
  case (r_weight s ident r s')
  then have "invariant s'" using weight_invariant by blast
  moreover have "memo_invariant s'"
    using r_weight weight_frame [of s ident r s'] memo_invariant_cong [of s' s] by simp
  ultimately show ?case by simp
next
  case (r_update s s')
  then have "invariant s'" using update_weights_invariant by blast
  moreover have "memo_invariant s'"
    using r_update update_weights_frame [of s s'] memo_invariant_cong [of s' s] by simp
  ultimately show ?case by simp
next
  case (r_write s ws)
  then show ?case
    using memo_invariant_cong [of "s\<lparr>weights := ws\<rparr>" s] by (simp add: invariant_write)
qed

section \<open>Claims about the composed ids\<close>

text \<open>The example embeddings are reachable.\<close>

lemma replicate_numeral: "replicate (numeral k) x = x # replicate (pred_numeral k) x"
  by (simp add: numeral_eq_Suc)

lemma four_div_two: "Suc (Suc (Suc (Suc 0))) div Suc (Suc 0) = Suc (Suc 0)"
  by (simp add: numeral_2_eq_2 [symmetric] numeral_Bit0 [symmetric] flip: One_nat_def add_2_eq_Suc add_2_eq_Suc')

lemma lookup_cats: "lookup_word cat lower cat_dog ''cats'' = (2, cats)"
  by (simp add: cat_dog_def cats_def lookup_word_def lookup_subform_def dict_find_def
      dict_emplace_def outer_loop_ngrams List.map_filter_def replicate_numeral ngrams_cats)

lemma load_cat_dog: "load byte_float fresh_embedding cat_dog_file = Inr (cat_dog, [])"
  by (simp add: load_def cat_dog_file_def next_4B_def next_1B_def next_bytes_def le_value_def
      next_str_def next_float_def byte_float_def fresh_embedding_def cat_dog_def
      dict_emplace_def dict_find_def resize_def replicate_numeral four_div_two)


lemma reachable_cat_dog: "reachable cat_dog"
  by (rule r_load [OF _ load_cat_dog]) (simp add: fresh_def fresh_embedding_def)

lemma reachable_cats: "reachable cats"
  by (rule r_lookup [OF reachable_cat_dog lookup_cats [of ascii_category ascii_lowercase]])

lemma lookup_word_subforms_prefix:
  "take (length (subforms s)) (subforms (snd (lookup_word cat lower s word))) = subforms s"
  by (simp add: lookup_word_def lookup_subform_cases split: option.splits del: outer_loop.simps)

text \<open>
  Claim C8. In every reachable embedding the list of constituents of every composed id is
  non-empty and strictly ascending (sorted without duplicates). It stays so, as the
  embeddings reached later are reachable too; moreover \<open>lookup_word\<close> only appends to
  \<open>subforms\<close>, and \<open>weight\<close> and \<open>update_weights\<close> leave it as it is. The ids that
  \<open>lookup_word\<close> has memoized are negative or composed.
\<close>

theorem subforms_sorted:
  assumes "reachable s" and "composed s ident"
  shows "subforms s ! nat ident \<noteq> [] \<and> sorted_wrt (<) (subforms s ! nat ident) \<and>
         (\<forall>cat lower word.
            take (length (subforms s)) (subforms (snd (lookup_word cat lower s word))) = subforms s) \<and>
         (\<forall>i r s'. weight s i = Inr (r, s') \<longrightarrow> subforms s' = subforms s) \<and>
         (\<forall>s'. update_weights s = Inr s' \<longrightarrow> subforms s' = subforms s) \<and>
         (\<forall>w v. dict_find (decomposed_forms s) w = Some v \<longrightarrow> v < 0 \<or> composed s v)"
proof -
  from assms(1) have inv: "invariant s" and memo: "memo_invariant s"
    by (simp_all add: reachable_invariant)
  from memo have ids: "\<forall>w v. dict_find (decomposed_forms s) w = Some v \<longrightarrow> v < 0 \<or> composed s v"
    unfolding memo_invariant_def by blast
  from assms(2) have k: "nat ident < length (subforms s)" "\<not> nat ident < loaded_rows s"
    unfolding composed_def by linarith+
  with invariant_row [OF inv k(1)] have "composed_row s (nat ident)" by simp
  then have "subforms s ! nat ident \<noteq> []" "sorted_wrt (<) (subforms s ! nat ident)"
    by (simp_all add: composed_row_def strict_sorted_iff)
  then show ?thesis
    using lookup_word_subforms_prefix weight_frame update_weights_frame ids by blast
qed

text \<open>The theorem at the composed id 2 of the word \<open>cats\<close>.\<close>

theorem subforms_sorted_witness:
  "reachable cats \<and> composed cats 2 \<and> subforms cats ! nat 2 = [0] \<and>
   sorted_wrt (<) (subforms cats ! nat 2)"
proof -
  have c: "composed cats 2"
    by (simp add: composed_def cats_def cat_dog_def loaded_rows_def)
  from subforms_sorted [OF reachable_cats c] reachable_cats c show ?thesis
    by (simp add: cats_def cat_dog_def)
qed

text \<open>
  Claim C10. In every reachable embedding, every constituent of every list of \<open>subforms\<close>
  is the id of a row that \<open>load\<close> created: it is not negative and below the dictionary
  size plus one for the unknown word. It is not a composed id, and it has neither
  constituents nor a cache slot of its own, so that a materialization reads loaded rows
  only.
\<close>

theorem constituents_loaded:
  assumes "reachable s" and "l \<in> set (subforms s)" and "c \<in> set l"
  shows "0 \<le> c \<and> nat c < loaded_rows s \<and> \<not> composed s c \<and>
         subforms s ! nat c = [] \<and> previous_weights s ! nat c = []"
proof -
  from assms(1) have inv: "invariant s" by (simp add: reachable_invariant)
  from assms(2) obtain i where i: "i < length (subforms s)" "l = subforms s ! i"
    by (auto simp: in_set_conv_nth)
  with assms(3) have "subforms s ! i \<noteq> []" by auto
  with invariant_row [OF inv i(1)] have "composed_row s i"
    by (auto simp: plain_row_def split: if_splits)
  with i assms(3) have c: "0 \<le> c" "c < int (loaded_rows s)"
    by (auto simp: composed_row_def)
  then have n: "nat c < loaded_rows s" by linarith
  moreover from inv have "loaded_rows s \<le> length (subforms s)" by (simp add: invariant_def)
  ultimately have "plain_row s (nat c)"
    using invariant_row [OF inv, of "nat c"] by simp
  with c n show ?thesis by (simp add: plain_row_def composed_def)
qed

text \<open>The theorem at the constituent 0 of the composed id 2.\<close>

theorem constituents_loaded_witness:
  "reachable cats \<and> [0] \<in> set (subforms cats) \<and> (0 :: int) \<in> set [0] \<and>
   nat 0 < loaded_rows cats \<and> \<not> composed cats 0 \<and> previous_weights cats ! nat 0 = []"
proof -
  have l: "[0] \<in> set (subforms cats)" by (simp add: cats_def)
  from constituents_loaded [OF reachable_cats l, of 0] reachable_cats l show ?thesis by simp
qed

lemma lookup_subform_memo_kept:
  "dict_find (decomposed_forms s) w = Some v \<Longrightarrow>
   dict_find (decomposed_forms (snd (lookup_subform s word))) w = Some v"
  by (auto simp: lookup_subform_cases dict_find_append split: option.splits simp del: outer_loop.simps)

lemma lookup_subform_again:
  "lookup_subform s word = (i, s1) \<Longrightarrow> dict_find (decomposed_forms s1) word = Some i"
  by (auto simp: lookup_subform_cases dict_find_append split: option.splits if_splits
      simp del: outer_loop.simps)

text \<open>
  Claim C4. In subform mode, in a reachable embedding, a second lookup of the same word
  returns the id of the first and changes nothing, and so does a lookup after an
  \<open>update_weights\<close> in between. The first lookup keeps every entry that
  \<open>decomposed_forms\<close> had, and the composed id of the word is the id of no other word.
\<close>

theorem lookup_word_idempotent:
  assumes "reachable s" and "subform s" and "lookup_word cat lower s word = (i, s1)"
  shows "lookup_word cat lower s1 word = (i, s1) \<and>
         (\<forall>s2. update_weights s1 = Inr s2 \<longrightarrow> lookup_word cat lower s2 word = (i, s2)) \<and>
         (\<forall>w v. dict_find (decomposed_forms s) w = Some v \<longrightarrow>
                dict_find (decomposed_forms s1) w = Some v) \<and>
         (\<forall>w. 0 \<le> i \<and> dict_find (decomposed_forms s1) w = Some i \<longrightarrow> w = word)"
proof -
  from assms(2,3) have look: "lookup_subform s word = (i, s1)"
    by (simp add: lookup_word_def)
  then have memo: "dict_find (decomposed_forms s1) word = Some i"
    by (rule lookup_subform_again)
  from look have sub1: "subform s1"
    using assms(2) by (auto simp: lookup_subform_cases split: option.splits if_splits simp del: outer_loop.simps)
  have again: "lookup_word cat lower s' word = (i, s')"
    if "subform s'" "decomposed_forms s' = decomposed_forms s1" for s'
    using that memo by (simp add: lookup_word_def lookup_subform_def)
  have 1: "lookup_word cat lower s1 word = (i, s1)"
    using sub1 by (rule again) simp
  have 2: "\<forall>s2. update_weights s1 = Inr s2 \<longrightarrow> lookup_word cat lower s2 word = (i, s2)"
    using update_weights_frame sub1 again by metis
  have 3: "\<forall>w v. dict_find (decomposed_forms s) w = Some v \<longrightarrow>
                dict_find (decomposed_forms s1) w = Some v"
    using lookup_subform_memo_kept [of s _ _ word] look by simp
  from assms(1,3) have "reachable s1" by (rule r_lookup)
  then have "memo_invariant s1" by (simp add: reachable_invariant)
  with memo have 4: "\<forall>w. 0 \<le> i \<and> dict_find (decomposed_forms s1) w = Some i \<longrightarrow> w = word"
    unfolding memo_invariant_def by blast
  from 1 2 3 4 show ?thesis by blast
qed

text \<open>The theorem at the word \<open>cats\<close> in the scenario of the spec.\<close>

theorem lookup_word_idempotent_witness:
  "reachable cat_dog \<and> subform cat_dog \<and>
   lookup_word ascii_category ascii_lowercase cat_dog ''cats'' = (2, cats) \<and>
   lookup_word ascii_category ascii_lowercase cats ''cats'' = (2, cats) \<and>
   update_weights cats = Inr cats"
proof -
  have s: "subform cat_dog" by (simp add: cat_dog_def)
  have u: "update_weights cats = Inr cats"
    by (simp add: update_weights_def cats_def cat_dog_def)
  from lookup_word_idempotent [OF reachable_cat_dog s lookup_cats [of ascii_category ascii_lowercase]]
    reachable_cat_dog s lookup_cats u
  show ?thesis by simp
qed

section \<open>The loops over the vector of weights\<close>

lemma for_j_Suc: "for_j (Suc d) body w = body d (for_j d body w)"
  by (simp add: for_j_def)

lemma for_j_0: "for_j 0 body w = w"
  by (simp add: for_j_def)

lemma inj_on_lessD: "inj_on P {..<d} \<Longrightarrow> i < d \<Longrightarrow> j < d \<Longrightarrow> P i = P j \<Longrightarrow> i = (j :: nat)"
  by (auto dest: inj_onD)

lemma for_j_update_upto:
  fixes P :: "nat \<Rightarrow> nat"
  assumes inj: "inj_on P {..<d}" and rng: "\<And>j. j < d \<Longrightarrow> P j < length w"
    and F: "\<And>j w'. j < d \<Longrightarrow> length w' = length w \<Longrightarrow>
              (\<forall>i<length w. i \<notin> P ` {..<j} \<longrightarrow> w' ! i = w ! i) \<Longrightarrow> F j w' = G j"
  shows "m \<le> d \<Longrightarrow>
         length (for_j m (\<lambda>j w. w[P j := F j w]) w) = length w \<and>
         (\<forall>j<m. for_j m (\<lambda>j w. w[P j := F j w]) w ! P j = G j) \<and>
         (\<forall>i<length w. i \<notin> P ` {..<m} \<longrightarrow> for_j m (\<lambda>j w. w[P j := F j w]) w ! i = w ! i)"
proof (induction m)
  case 0
  then show ?case by (simp add: for_j_0)
next
  case (Suc m)
  let ?v = "for_j m (\<lambda>j w. w[P j := F j w]) w"
  from Suc have m: "m < d" and IH: "length ?v = length w" "\<forall>j<m. ?v ! P j = G j"
    "\<forall>i<length w. i \<notin> P ` {..<m} \<longrightarrow> ?v ! i = w ! i"
    by simp_all
  have Fm: "F m ?v = G m" using m IH(1,3) by (rule F)
  have step: "for_j (Suc m) (\<lambda>j w. w[P j := F j w]) w = ?v[P m := G m]"
    by (simp add: for_j_Suc Fm)
  have ne: "P m \<noteq> P j" if "j < m" for j
    using inj_on_lessD [OF inj, of m j] that m by auto
  show ?case
    unfolding step
  proof (intro conjI allI impI)
    show "length (?v[P m := G m]) = length w" using IH(1) by simp
  next
    fix j assume "j < Suc m"
    then consider "j < m" | "j = m" by linarith
    then show "?v[P m := G m] ! P j = G j"
    proof cases
      case 1
      with ne IH(2) show ?thesis by simp
    next
      case 2
      with rng [OF m] IH(1) show ?thesis by simp
    qed
  next
    fix i assume "i < length w" "i \<notin> P ` {..<Suc m}"
    then have "i \<noteq> P m" "i \<notin> P ` {..<m}" by (auto simp: lessThan_Suc)
    with IH(3) \<open>i < length w\<close> show "?v[P m := G m] ! i = w ! i" by simp
  qed
qed

lemma for_j_update:
  fixes P :: "nat \<Rightarrow> nat"
  assumes "inj_on P {..<d}" and "\<And>j. j < d \<Longrightarrow> P j < length w"
    and "\<And>j w'. j < d \<Longrightarrow> length w' = length w \<Longrightarrow>
              (\<forall>i<length w. i \<notin> P ` {..<j} \<longrightarrow> w' ! i = w ! i) \<Longrightarrow> F j w' = G j"
  shows "length (for_j d (\<lambda>j w. w[P j := F j w]) w) = length w"
    and "\<And>j. j < d \<Longrightarrow> for_j d (\<lambda>j w. w[P j := F j w]) w ! P j = G j"
    and "\<And>i. i < length w \<Longrightarrow> i \<notin> P ` {..<d} \<Longrightarrow>
           for_j d (\<lambda>j w. w[P j := F j w]) w ! i = w ! i"
  using for_j_update_upto [OF assms, where m = d] by simp_all

text \<open>Adding the rows at \<open>Q c\<close> of a list of constituents to the row at \<open>P\<close>.\<close>

lemma add_rows:
  fixes P :: "nat \<Rightarrow> nat" and Q :: "'c \<Rightarrow> nat \<Rightarrow> nat"
  assumes inj: "inj_on P {..<d}" and rng: "\<And>j. j < d \<Longrightarrow> P j < length v"
    and Q: "\<And>c j. c \<in> set cs \<Longrightarrow> j < d \<Longrightarrow> Q c j < length v \<and> Q c j \<notin> P ` {..<d}"
  shows "length (foldl (\<lambda>w c. for_j d (\<lambda>j w. w[P j := w ! P j + w ! Q c j]) w) v cs) = length v \<and>
         (\<forall>j<d. foldl (\<lambda>w c. for_j d (\<lambda>j w. w[P j := w ! P j + w ! Q c j]) w) v cs ! P j =
                  v ! P j + (\<Sum>c\<leftarrow>cs. v ! Q c j)) \<and>
         (\<forall>i<length v. i \<notin> P ` {..<d} \<longrightarrow>
            foldl (\<lambda>w c. for_j d (\<lambda>j w. w[P j := w ! P j + w ! Q c j]) w) v cs ! i = v ! i)"
  using rng Q
proof (induction cs arbitrary: v)
  case Nil
  then show ?case by simp
next
  case (Cons c cs)
  let ?v1 = "for_j d (\<lambda>j w. w[P j := w ! P j + w ! Q c j]) v"
  have notin: "P j \<notin> P ` {..<j}" if "j < d" for j
  proof
    assume "P j \<in> P ` {..<j}"
    then obtain x where "x < j" "P j = P x" by auto
    with inj_on_lessD [OF inj, of j x] that show False by simp
  qed
  have Qc: "Q c j < length v" "Q c j \<notin> P ` {..<d}" if "j < d" for j
    using Cons.prems(2) [of c j] that by simp_all
  have F: "w' ! P j + w' ! Q c j = v ! P j + v ! Q c j"
    if "j < d" "length w' = length v" "\<forall>i<length v. i \<notin> P ` {..<j} \<longrightarrow> w' ! i = v ! i" for j w'
  proof -
    have "Q c j \<notin> P ` {..<j}" using Qc(2) [OF that(1)] that(1) by auto
    with that(3) Qc(1) [OF that(1)] have "w' ! Q c j = v ! Q c j" by blast
    moreover from that(3) notin [OF that(1)] Cons.prems(1) [OF that(1)]
    have "w' ! P j = v ! P j" by blast
    ultimately show ?thesis by simp
  qed
  have len1: "length ?v1 = length v"
    using inj Cons.prems(1) F
    by (rule for_j_update(1) [where F = "\<lambda>j w. w ! P j + w ! Q c j" and G = "\<lambda>j. v ! P j + v ! Q c j"])
  have row1: "?v1 ! P j = v ! P j + v ! Q c j" if "j < d" for j
    using inj Cons.prems(1) F that
    by (rule for_j_update(2) [where F = "\<lambda>j w. w ! P j + w ! Q c j" and G = "\<lambda>j. v ! P j + v ! Q c j"])
  have oth1: "?v1 ! i = v ! i" if "i < length v" "i \<notin> P ` {..<d}" for i
    using inj Cons.prems(1) F that
    by (rule for_j_update(3) [where F = "\<lambda>j w. w ! P j + w ! Q c j" and G = "\<lambda>j. v ! P j + v ! Q c j"])
  let ?r = "foldl (\<lambda>w c. for_j d (\<lambda>j w. w[P j := w ! P j + w ! Q c j]) w) ?v1 cs"
  have IH: "length ?r = length ?v1 \<and>
         (\<forall>j<d. ?r ! P j = ?v1 ! P j + (\<Sum>c\<leftarrow>cs. ?v1 ! Q c j)) \<and>
         (\<forall>i<length ?v1. i \<notin> P ` {..<d} \<longrightarrow> ?r ! i = ?v1 ! i)"
  proof (rule Cons.IH)
    fix j assume "j < d"
    then show "P j < length ?v1" using Cons.prems(1) len1 by simp
  next
    fix c' j assume "c' \<in> set cs" "j < d"
    then show "Q c' j < length ?v1 \<and> Q c' j \<notin> P ` {..<d}"
      using Cons.prems(2) [of c' j] len1 by simp
  qed
  have sum: "(\<Sum>c\<leftarrow>cs. ?v1 ! Q c j) = (\<Sum>c\<leftarrow>cs. v ! Q c j)" if "j < d" for j
  proof -
    have "map (\<lambda>c. ?v1 ! Q c j) cs = map (\<lambda>c. v ! Q c j) cs"
    proof (rule map_cong [OF refl])
      fix c' assume "c' \<in> set cs"
      with Cons.prems(2) [of c' j] that show "?v1 ! Q c' j = v ! Q c' j"
        by (intro oth1) simp_all
    qed
    then show ?thesis by (rule arg_cong)
  qed
  have eq: "foldl (\<lambda>w c. for_j d (\<lambda>j w. w[P j := w ! P j + w ! Q c j]) w) v (c # cs) = ?r"
    by simp
  show ?case
    unfolding eq
  proof (intro conjI allI impI)
    show "length ?r = length v" using IH len1 by simp
  next
    fix j assume j: "j < d"
    with IH have "?r ! P j = ?v1 ! P j + (\<Sum>c\<leftarrow>cs. ?v1 ! Q c j)" by blast
    also have "\<dots> = v ! P j + v ! Q c j + (\<Sum>c\<leftarrow>cs. v ! Q c j)"
      by (simp only: row1 [OF j] sum [OF j])
    finally show "?r ! P j = v ! P j + (\<Sum>c\<leftarrow>c # cs. v ! Q c j)" by simp
  next
    fix i assume i: "i < length v" "i \<notin> P ` {..<d}"
    with IH len1 have "?r ! i = ?v1 ! i" by simp
    with oth1 [OF i] show "?r ! i = v ! i" by simp
  qed
qed


lemma row_bound:
  assumes "i < n" and "j < d"
  shows "i * d + j < n * (d :: nat)"
proof -
  have "i * d + j < i * d + d" using assms(2) by simp
  also have "\<dots> = Suc i * d" by simp
  also have "\<dots> \<le> n * d" using assms(1) by (intro mult_le_mono1) simp
  finally show ?thesis .
qed

lemma u32_small: "0 \<le> i \<Longrightarrow> nat i < 2 ^ 32 \<Longrightarrow> u32 i = nat i"
proof -
  assume a: "0 \<le> i" "nat i < 2 ^ 32"
  then have "i < 2 ^ 32" by (simp add: nat_less_iff)
  with a show ?thesis by (simp add: u32_def)
qed

lemma index_row:
  assumes "0 \<le> i" and "nat i < n" and "j < d" and "n * d \<le> 2 ^ 32"
  shows "index d i j = nat i * d + j" and "nat i * d + j < n * d"
proof -
  show lt: "nat i * d + j < n * d" using assms(2,3) by (rule row_bound)
  have "nat i \<le> nat i * d + j" using assms(3) by (cases d) simp_all
  with lt assms(4) have "nat i < 2 ^ 32" by linarith
  with assms(1) have "u32 i = nat i" by (rule u32_small)
  moreover have "nat i * d + j < 2 ^ 32" using lt assms(4) by linarith
  ultimately show "index d i j = nat i * d + j" by (simp add: index_def)
qed

lemma row_offset_row:
  assumes "0 \<le> i" and "nat i < n" and "0 < d" and "n * d \<le> 2 ^ 32"
  shows "row_offset d i = nat i * d" and "nat i * d < n * d"
  using index_row [OF assms(1,2) assms(3) assms(4)]
  by (simp_all add: index_def row_offset_def)

lemma foldl_copy:
  "d \<le> length p \<Longrightarrow>
   foldl (\<lambda>p j. p[j := f j]) p [0..<d] = map f [0..<d] @ drop d p"
proof (induction d)
  case 0
  then show ?case by simp
next
  case (Suc d)
  then have "foldl (\<lambda>p j. p[j := f j]) p [0..<Suc d] = (map f [0..<d] @ drop d p)[d := f d]"
    by simp
  also have "\<dots> = map f [0..<d] @ (drop d p)[0 := f d]"
    by (simp add: list_update_append)
  also have "(drop d p)[0 := f d] = f d # drop (Suc d) p"
    using Suc.prems by (simp add: Cons_nth_drop_Suc [symmetric])
  finally show ?case by simp
qed

text \<open>The facts about a composed id that the invariant gives.\<close>

lemma composed_facts:
  assumes "invariant s" and "fits s" and "composed s ident"
  shows "0 \<le> ident" and "nat ident < length (subforms s)"
    and "length (subforms s) * dimension s \<le> 2 ^ 32"
    and "length (weights s) = length (subforms s) * dimension s"
    and "0 < dimension s"
    and "composed_row s (nat ident)"
    and "\<forall>c \<in> set (subforms s ! nat ident). 0 \<le> c \<and> nat c < length (subforms s) \<and> nat c \<noteq> nat ident"
    and "nat ident < length (previous_weights s)"
proof -
  from assms(3) show pos: "0 \<le> ident" and k: "nat ident < length (subforms s)"
    unfolding composed_def by linarith+
  from assms(3) have ge: "loaded_rows s \<le> nat ident" unfolding composed_def by linarith
  from assms(1) show len: "length (weights s) = length (subforms s) * dimension s"
    and "0 < dimension s"
    by (simp_all add: invariant_def)
  with assms(2) show "length (subforms s) * dimension s \<le> 2 ^ 32" by (simp add: fits_def)
  from invariant_row [OF assms(1) k] ge show crow: "composed_row s (nat ident)" by simp
  from assms(1) have "loaded_rows s \<le> length (subforms s)" by (simp add: invariant_def)
  show "\<forall>c \<in> set (subforms s ! nat ident).
      0 \<le> c \<and> nat c < length (subforms s) \<and> nat c \<noteq> nat ident"
  proof
    fix c assume "c \<in> set (subforms s ! nat ident)"
    with crow have c: "0 \<le> c" "c < int (loaded_rows s)" by (simp_all add: composed_row_def)
    then have "nat c < loaded_rows s" by linarith
    with c ge k show "0 \<le> c \<and> nat c < length (subforms s) \<and> nat c \<noteq> nat ident" by linarith
  qed
  from assms(1) k show "nat ident < length (previous_weights s)" by (simp add: invariant_def)
qed

lemma inj_on_index:
  assumes "0 \<le> i" and "nat i < n" and "n * d \<le> 2 ^ 32"
  shows "inj_on (index d i) {..<d}"
proof (rule inj_onI)
  fix x y assume "x \<in> {..<d}" "y \<in> {..<d}" "index d i x = index d i y"
  then show "x = y"
    using index_row(1) [OF assms(1,2) _ assms(3), of x] index_row(1) [OF assms(1,2) _ assms(3), of y]
    by simp
qed

lemma rows_disjoint:
  assumes "a \<noteq> b" and "j < d" and "j' < d"
  shows "a * d + j \<noteq> b * d + (j' :: nat)"
proof
  assume eq: "a * d + j = b * d + j'"
  then have "(a * d + j) div d = (b * d + j') div d" by simp
  with assms(2,3) have "a = b" by simp
  with assms(1) show False by simp
qed


lemma not_in_earlier:
  assumes "inj_on P {..<d}" and "j < (d :: nat)"
  shows "P j \<notin> P ` {..<j}"
proof
  assume "P j \<in> P ` {..<j}"
  then obtain x where "x < j" "P j = P x" by auto
  with inj_on_lessD [OF assms(1), of j x] assms(2) show False by simp
qed

lemma materialize_result:
  assumes inv: "invariant s" and fits: "fits s" and comp: "composed s ident"
  shows "\<exists>w'. materialize s ident =
            s\<lparr>weights := w',
              previous_weights := (previous_weights s)
                [nat ident := map (\<lambda>j. w' ! (nat ident * dimension s + j)) [0..<dimension s] @ [1]],
              active_subforms := active_subforms s @ [ident]\<rparr> \<and>
          length w' = length (weights s) \<and>
          (\<forall>j<dimension s. w' ! (nat ident * dimension s + j) =
             (\<Sum>c\<leftarrow>subforms s ! nat ident. weights s ! (nat c * dimension s + j)) /
               real (length (subforms s ! nat ident))) \<and>
          (\<forall>i<length (weights s).
             (\<forall>j<dimension s. i \<noteq> nat ident * dimension s + j) \<longrightarrow> w' ! i = weights s ! i)"
proof -
  note cf = composed_facts [OF inv fits comp]
  define d where "d = dimension s"
  define k where "k = nat ident"
  define cs where "cs = subforms s ! nat ident"
  define w where "w = weights s"
  define r :: real where "r = 1 / real (length cs)"
  define P where "P = index d ident"
  have lenw: "length w = length (subforms s) * d" using cf(4) by (simp add: w_def d_def)
  have bound: "length (subforms s) * d \<le> 2 ^ 32" using cf(3) by (simp add: d_def)
  have Pj: "P j = k * d + j" "P j < length w" if "j < d" for j
    using index_row [OF cf(1,2) that bound] lenw by (simp_all add: P_def k_def)
  have inj: "inj_on P {..<d}"
    unfolding P_def using cf(1,2) bound by (rule inj_on_index)
  have ro: "row_offset d ident = k * d"
    using row_offset_row(1) [OF cf(1,2) _ bound] cf(5) by (simp add: d_def k_def)
  have Qc: "index d c j = nat c * d + j" "index d c j < length w" "index d c j \<notin> P ` {..<d}"
    if "c \<in> set cs" "j < d" for c j
  proof -
    from that(1) cf(7) have c: "0 \<le> c" "nat c < length (subforms s)" "nat c \<noteq> k"
      by (simp_all add: cs_def k_def)
    from index_row [OF c(1,2) that(2) bound] lenw
    show 1: "index d c j = nat c * d + j" and "index d c j < length w" by simp_all
    show "index d c j \<notin> P ` {..<d}"
    proof
      assume "index d c j \<in> P ` {..<d}"
      then obtain j' where "j' < d" "index d c j = P j'" by auto
      with 1 Pj(1) have "nat c * d + j = k * d + j'" by simp
      with rows_disjoint [OF c(3) that(2) \<open>j' < d\<close>] show False by simp
    qed
  qed
  define w0 where "w0 = for_j d (\<lambda>j w. w[row_offset d ident + j := 0]) w"
  have inj0: "inj_on (\<lambda>j. row_offset d ident + j) {..<d}" by (simp add: inj_on_def)
  have rng0: "row_offset d ident + j < length w" if "j < d" for j
    using Pj [OF that] by (simp add: ro)
  have F0: "(0 :: real) = 0" if "j < d" "length w' = length w"
    "\<forall>i<length w. i \<notin> (\<lambda>j. row_offset d ident + j) ` {..<j} \<longrightarrow> w' ! i = w ! i" for j w'
    by simp
  have len0: "length w0 = length w"
    unfolding w0_def using inj0 rng0 F0
    by (rule for_j_update(1) [where F = "\<lambda>j w. 0" and G = "\<lambda>j. 0"])
  have row0: "w0 ! P j = 0" if "j < d" for j
  proof -
    have "w0 ! (row_offset d ident + j) = 0"
      unfolding w0_def using inj0 rng0 F0 that
      by (rule for_j_update(2) [where F = "\<lambda>j w. 0" and G = "\<lambda>j. 0"])
    with Pj(1) [OF that] show ?thesis by (simp add: ro)
  qed
  have img0: "(\<lambda>j. row_offset d ident + j) ` {..<d} = P ` {..<d}"
    by (rule image_cong [OF refl]) (simp add: Pj(1) ro)
  have oth0: "w0 ! i = w ! i" if "i < length w" "i \<notin> P ` {..<d}" for i
  proof -
    from that(2) have "i \<notin> (\<lambda>j. row_offset d ident + j) ` {..<d}" unfolding img0 .
    with inj0 rng0 F0 that(1) show ?thesis
      unfolding w0_def
      by (rule for_j_update(3) [where F = "\<lambda>j w. 0" and G = "\<lambda>j. 0"])
  qed
  define w1 where
    "w1 = foldl (\<lambda>w c. for_j d (\<lambda>j w. w[P j := w ! P j + w ! index d c j]) w) w0 cs"
  have add: "length w1 = length w0 \<and>
         (\<forall>j<d. w1 ! P j = w0 ! P j + (\<Sum>c\<leftarrow>cs. w0 ! index d c j)) \<and>
         (\<forall>i<length w0. i \<notin> P ` {..<d} \<longrightarrow> w1 ! i = w0 ! i)"
    unfolding w1_def
  proof (rule add_rows [OF inj])
    fix j assume "j < d" then show "P j < length w0" using Pj(2) len0 by simp
  next
    fix c j assume "c \<in> set cs" "j < d"
    then show "index d c j < length w0 \<and> index d c j \<notin> P ` {..<d}"
      using Qc(2,3) len0 by simp
  qed
  have len1: "length w1 = length w" using add len0 by simp
  have row1: "w1 ! P j = (\<Sum>c\<leftarrow>cs. w ! (nat c * d + j))" if "j < d" for j
  proof -
    have "map (\<lambda>c. w0 ! index d c j) cs = map (\<lambda>c. w ! (nat c * d + j)) cs"
    proof (rule map_cong [OF refl])
      fix c assume c: "c \<in> set cs"
      from oth0 [OF Qc(2,3) [OF c that]] Qc(1) [OF c that]
      show "w0 ! index d c j = w ! (nat c * d + j)" by simp
    qed
    then have "(\<Sum>c\<leftarrow>cs. w0 ! index d c j) = (\<Sum>c\<leftarrow>cs. w ! (nat c * d + j))"
      by (rule arg_cong)
    with add that row0 [OF that] show ?thesis by simp
  qed
  have oth1: "w1 ! i = w ! i" if "i < length w" "i \<notin> P ` {..<d}" for i
    using add that len0 oth0 [OF that] by simp
  define w2 where "w2 = for_j d (\<lambda>j w. w[P j := w ! P j * r]) w1"
  have rng1: "P j < length w1" if "j < d" for j using Pj(2) [OF that] len1 by simp
  have F2: "w' ! P j * r = w1 ! P j * r" if "j < d" "length w' = length w1"
    "\<forall>i<length w1. i \<notin> P ` {..<j} \<longrightarrow> w' ! i = w1 ! i" for j w'
    using that(3) rng1 [OF that(1)] not_in_earlier [OF inj that(1)] by simp
  have len2: "length w2 = length w"
    unfolding w2_def len1 [symmetric] using inj rng1 F2
    by (rule for_j_update(1) [where F = "\<lambda>j w. w ! P j * r" and G = "\<lambda>j. w1 ! P j * r"])
  have row2: "w2 ! P j = w1 ! P j * r" if "j < d" for j
    unfolding w2_def using inj rng1 F2 that
    by (rule for_j_update(2) [where F = "\<lambda>j w. w ! P j * r" and G = "\<lambda>j. w1 ! P j * r"])
  have oth2: "w2 ! i = w ! i" if "i < length w" "i \<notin> P ` {..<d}" for i
  proof -
    from that len1 have "i < length w1" by simp
    with inj rng1 F2 have "w2 ! i = w1 ! i"
      unfolding w2_def using that(2)
      by (rule for_j_update(3) [where F = "\<lambda>j w. w ! P j * r" and G = "\<lambda>j. w1 ! P j * r"])
    with oth1 [OF that] show ?thesis by simp
  qed
  have plen: "d \<le> length (previous_weights s ! k)" "length (previous_weights s ! k) = d + 1"
    using cf(6) by (simp_all add: composed_row_def k_def d_def)
  have copy: "(foldl (\<lambda>p j. p[j := w2 ! (row_offset d ident + j)]) (previous_weights s ! k) [0..<d])[d := 1]
      = map (\<lambda>j. w2 ! (k * d + j)) [0..<d] @ [1]"
  proof -
    have "length (drop d (previous_weights s ! k)) = Suc 0" using plen(2) by simp
    then obtain x where dr: "drop d (previous_weights s ! k) = [x]"
      by (cases "drop d (previous_weights s ! k)") auto
    show ?thesis
      by (simp add: foldl_copy [OF plen(1)] ro list_update_append dr)
  qed
  have mat: "materialize s ident =
      s\<lparr>weights := w2,
        previous_weights := (previous_weights s)[k := map (\<lambda>j. w2 ! (k * d + j)) [0..<d] @ [1]],
        active_subforms := active_subforms s @ [ident]\<rparr>"
    unfolding copy [symmetric]
    by (simp add: materialize_def Let_def w2_def w1_def w0_def P_def r_def cs_def k_def d_def w_def)
  show ?thesis
  proof (intro exI [of _ w2] conjI allI impI)
    show "materialize s ident =
      s\<lparr>weights := w2,
        previous_weights := (previous_weights s)
          [nat ident := map (\<lambda>j. w2 ! (nat ident * dimension s + j)) [0..<dimension s] @ [1]],
        active_subforms := active_subforms s @ [ident]\<rparr>"
      using mat by (simp add: k_def d_def)
    show "length w2 = length (weights s)" using len2 by (simp add: w_def)
  next
    fix j assume "j < dimension s"
    then have j: "j < d" by (simp add: d_def)
    from row2 [OF j] row1 [OF j] Pj(1) [OF j]
    show "w2 ! (nat ident * dimension s + j) =
        (\<Sum>c\<leftarrow>subforms s ! nat ident. weights s ! (nat c * dimension s + j)) /
          real (length (subforms s ! nat ident))"
      by (simp add: r_def cs_def k_def d_def w_def)
  next
    fix i assume i: "i < length (weights s)" "\<forall>j<dimension s. i \<noteq> nat ident * dimension s + j"
    have "i \<notin> P ` {..<d}"
    proof
      assume "i \<in> P ` {..<d}"
      then obtain j where "j < d" "i = P j" by auto
      with Pj(1) [of j] i(2) show False by (auto simp: k_def d_def)
    qed
    with oth2 [of i] i(1) show "w2 ! i = weights s ! i" by (simp add: w_def)
  qed
qed

lemma take_drop_nth:
  "p + d \<le> length w \<Longrightarrow> take d (drop p w) = map (\<lambda>j. w ! (p + j)) [0..<d]"
  by (rule nth_equalityI) simp_all

lemma row_nth:
  assumes "nat i < n" and "length (weights s) = n * dimension s"
  shows "row s i = map (\<lambda>j. entry s i j) [0..<dimension s]"
proof -
  have "nat i * dimension s + dimension s = Suc (nat i) * dimension s" by simp
  also have "\<dots> \<le> n * dimension s" using assms(1) by (intro mult_le_mono1) simp
  finally have "nat i * dimension s + dimension s \<le> length (weights s)" using assms(2) by simp
  then show ?thesis by (simp add: row_def entry_def take_drop_nth)
qed

lemma materialize_in_range_composed:
  assumes inv: "invariant s" and fits: "fits s" and comp: "composed s ident"
  shows "materialize_in_range s ident" and "update_in_range s ident"
    and "row_offset (dimension s) ident = nat ident * dimension s"
    and "row_offset (dimension s) ident < length (weights s)"
proof -
  note cf = composed_facts [OF inv fits comp]
  have idx: "index (dimension s) ident j = nat ident * dimension s + j"
    "index (dimension s) ident j < length (weights s)" if "j < dimension s" for j
    using index_row [OF cf(1,2) that cf(3)] cf(4) by simp_all
  show ro: "row_offset (dimension s) ident = nat ident * dimension s"
    using row_offset_row(1) [OF cf(1,2,5,3)] .
  show "row_offset (dimension s) ident < length (weights s)"
    using row_offset_row [OF cf(1,2,5,3)] cf(4) by simp
  have cidx: "index (dimension s) c j < length (weights s)"
    if "c \<in> set (subforms s ! nat ident)" "j < dimension s" for c j
  proof -
    from that(1) cf(7) have "0 \<le> c" "nat c < length (subforms s)" by simp_all
    from index_row(1,2) [OF this that(2) cf(3)] cf(4) show ?thesis by simp
  qed
  show "materialize_in_range s ident"
    unfolding materialize_in_range_def using cf(2) idx cidx by (simp add: ro)
  have "dimension s < length (previous_weights s ! nat ident)"
    using cf(6) by (simp add: composed_row_def)
  then show "update_in_range s ident"
    unfolding update_in_range_def using cf(1,2,8) idx cidx by simp
qed

text \<open>Adding the row at \<open>P\<close> to the rows at \<open>Q c\<close> of a list of distinct constituents.\<close>

lemma distribute_rows:
  fixes P :: "nat \<Rightarrow> nat" and Q :: "'c \<Rightarrow> nat \<Rightarrow> nat"
  assumes "distinct cs"
    and "\<And>c. c \<in> set cs \<Longrightarrow> inj_on (Q c) {..<d}"
    and "\<And>c j. c \<in> set cs \<Longrightarrow> j < d \<Longrightarrow> Q c j < length v"
    and "\<And>j. j < d \<Longrightarrow> P j < length v"
    and "\<And>c j. c \<in> set cs \<Longrightarrow> j < d \<Longrightarrow> P j \<notin> Q c ` {..<d}"
    and "\<And>c c' j. c \<in> set cs \<Longrightarrow> c' \<in> set cs \<Longrightarrow> c \<noteq> c' \<Longrightarrow> j < d \<Longrightarrow> Q c j \<notin> Q c' ` {..<d}"
  shows "length (foldl (\<lambda>w c. for_j d (\<lambda>j w. w[Q c j := w ! Q c j + w ! P j]) w) v cs) = length v \<and>
         (\<forall>c\<in>set cs. \<forall>j<d.
            foldl (\<lambda>w c. for_j d (\<lambda>j w. w[Q c j := w ! Q c j + w ! P j]) w) v cs ! Q c j =
              v ! Q c j + v ! P j) \<and>
         (\<forall>i<length v. (\<forall>c\<in>set cs. i \<notin> Q c ` {..<d}) \<longrightarrow>
            foldl (\<lambda>w c. for_j d (\<lambda>j w. w[Q c j := w ! Q c j + w ! P j]) w) v cs ! i = v ! i)"
  using assms
proof (induction cs arbitrary: v)
  case Nil
  then show ?case by simp
next
  case (Cons c cs)
  let ?v1 = "for_j d (\<lambda>j w. w[Q c j := w ! Q c j + w ! P j]) v"
  let ?r = "foldl (\<lambda>w c. for_j d (\<lambda>j w. w[Q c j := w ! Q c j + w ! P j]) w) ?v1 cs"
  have injc: "inj_on (Q c) {..<d}" using Cons.prems(2) by simp
  have rngc: "Q c j < length v" if "j < d" for j using Cons.prems(3) that by simp
  have Pc: "P j \<notin> Q c ` {..<d}" "P j < length v" if "j < d" for j
    using Cons.prems(4,5) that by simp_all
  have F: "w' ! Q c j + w' ! P j = v ! Q c j + v ! P j"
    if "j < d" "length w' = length v" "\<forall>i<length v. i \<notin> Q c ` {..<j} \<longrightarrow> w' ! i = v ! i" for j w'
  proof -
    have "P j \<notin> Q c ` {..<j}" using Pc(1) [OF that(1)] that(1) by auto
    with that(3) Pc(2) [OF that(1)] have "w' ! P j = v ! P j" by blast
    moreover from that(3) not_in_earlier [OF injc that(1)] rngc [OF that(1)]
    have "w' ! Q c j = v ! Q c j" by blast
    ultimately show ?thesis by simp
  qed
  have len1: "length ?v1 = length v"
    using injc rngc F
    by (rule for_j_update(1) [where F = "\<lambda>j w. w ! Q c j + w ! P j" and G = "\<lambda>j. v ! Q c j + v ! P j"])
  have row1: "?v1 ! Q c j = v ! Q c j + v ! P j" if "j < d" for j
    using injc rngc F that
    by (rule for_j_update(2) [where F = "\<lambda>j w. w ! Q c j + w ! P j" and G = "\<lambda>j. v ! Q c j + v ! P j"])
  have oth1: "?v1 ! i = v ! i" if "i < length v" "i \<notin> Q c ` {..<d}" for i
    using injc rngc F that
    by (rule for_j_update(3) [where F = "\<lambda>j w. w ! Q c j + w ! P j" and G = "\<lambda>j. v ! Q c j + v ! P j"])
  from Cons.prems(1) have notin: "c \<notin> set cs" and dist: "distinct cs" by simp_all
  have IH: "length ?r = length ?v1 \<and>
         (\<forall>c\<in>set cs. \<forall>j<d. ?r ! Q c j = ?v1 ! Q c j + ?v1 ! P j) \<and>
         (\<forall>i<length ?v1. (\<forall>c\<in>set cs. i \<notin> Q c ` {..<d}) \<longrightarrow> ?r ! i = ?v1 ! i)"
  proof (rule Cons.IH [OF dist])
    fix c' assume "c' \<in> set cs" then show "inj_on (Q c') {..<d}" using Cons.prems(2) by simp
  next
    fix c' j assume "c' \<in> set cs" "j < d"
    then show "Q c' j < length ?v1" using Cons.prems(3) len1 by simp
  next
    fix j assume "j < d" then show "P j < length ?v1" using Cons.prems(4) len1 by simp
  next
    fix c' j assume "c' \<in> set cs" "j < d"
    then show "P j \<notin> Q c' ` {..<d}" using Cons.prems(5) by simp
  next
    fix c' c'' j assume "c' \<in> set cs" "c'' \<in> set cs" "c' \<noteq> c''" "j < d"
    then show "Q c' j \<notin> Q c'' ` {..<d}" using Cons.prems(6) by simp
  qed
  have eq: "foldl (\<lambda>w c. for_j d (\<lambda>j w. w[Q c j := w ! Q c j + w ! P j]) w) v (c # cs) = ?r"
    by simp
  show ?case
    unfolding eq
  proof (intro conjI ballI allI impI)
    show "length ?r = length v" using IH len1 by simp
  next
    fix c' j assume c': "c' \<in> set (c # cs)" and j: "j < d"
    show "?r ! Q c' j = v ! Q c' j + v ! P j"
    proof (cases "c' = c")
      case True
      have "\<forall>x\<in>set cs. Q c j \<notin> Q x ` {..<d}"
        using Cons.prems(6) [of c _ j] notin j by auto
      with IH rngc [OF j] len1 have "?r ! Q c j = ?v1 ! Q c j" by simp
      with row1 [OF j] True show ?thesis by simp
    next
      case False
      with c' have in_cs: "c' \<in> set cs" by simp
      with IH j have "?r ! Q c' j = ?v1 ! Q c' j + ?v1 ! P j" by blast
      moreover have "?v1 ! Q c' j = v ! Q c' j"
        using Cons.prems(3) [of c' j] Cons.prems(6) [of c' c j] in_cs False j
        by (intro oth1) simp_all
      moreover have "?v1 ! P j = v ! P j"
        using Pc [OF j] by (intro oth1) simp_all
      ultimately show ?thesis by simp
    qed
  next
    fix i assume i: "i < length v" "\<forall>c\<in>set (c # cs). i \<notin> Q c ` {..<d}"
    with IH len1 have "?r ! i = ?v1 ! i" by simp
    moreover from i have "?v1 ! i = v ! i" by (intro oth1) simp_all
    ultimately show "?r ! i = v ! i" by simp
  qed
qed


lemma update_step_result:
  assumes inv: "invariant (s\<lparr>active_subforms := x\<rparr>)" and fits: "fits s" and comp: "composed s a"
  shows "\<exists>w'. update_step s a =
            s\<lparr>weights := w',
              previous_weights :=
                (previous_weights s)[nat a := (previous_weights s ! nat a)[dimension s := 0]]\<rparr> \<and>
          length w' = length (weights s) \<and>
          (\<forall>c j. 0 \<le> c \<and> nat c < length (subforms s) \<and> c \<noteq> a \<and> j < dimension s \<longrightarrow>
             w' ! (nat c * dimension s + j) =
               weights s ! (nat c * dimension s + j) +
               (if c \<in> set (subforms s ! nat a) then delta s a j else 0))"
proof -
  let ?s0 = "s\<lparr>active_subforms := x\<rparr>"
  have fits0: "fits ?s0" using fits by (simp add: fits_def)
  have comp0: "composed ?s0 a" using comp by simp
  note cf0 = composed_facts [OF inv fits0 comp0]
  have cf: "0 \<le> a" "nat a < length (subforms s)"
    "length (subforms s) * dimension s \<le> 2 ^ 32"
    "length (weights s) = length (subforms s) * dimension s"
    "0 < dimension s"
    "\<forall>c \<in> set (subforms s ! nat a). 0 \<le> c \<and> nat c < length (subforms s) \<and> nat c \<noteq> nat a"
    using cf0(1,2,3,4,5,7) by simp_all
  have dist: "distinct (subforms s ! nat a)"
    using cf0(6) by (simp add: composed_row_def)
  define d where "d = dimension s"
  define k where "k = nat a"
  define cs where "cs = subforms s ! nat a"
  define w where "w = weights s"
  define pw where "pw = previous_weights s ! nat a"
  define r :: real where "r = 1 / real (length cs)"
  define P where "P = index d a"
  have lenw: "length w = length (subforms s) * d" using cf(4) by (simp add: w_def d_def)
  have bound: "length (subforms s) * d \<le> 2 ^ 32" using cf(3) by (simp add: d_def)
  have row: "index d c j = nat c * d + j" "index d c j < length w"
    if "0 \<le> c" "nat c < length (subforms s)" "j < d" for c j
    using index_row [OF that bound] lenw by simp_all
  have injr: "inj_on (index d c) {..<d}" if "0 \<le> c" "nat c < length (subforms s)" for c
    using that bound by (rule inj_on_index)
  have disj: "index d c j \<notin> index d c' ` {..<d}"
    if "0 \<le> c" "nat c < length (subforms s)" "0 \<le> c'" "nat c' < length (subforms s)"
      "nat c \<noteq> nat c'" "j < d" for c c' j
  proof
    assume "index d c j \<in> index d c' ` {..<d}"
    then obtain j' where j': "j' < d" "index d c j = index d c' j'" by auto
    with row(1) [OF that(1,2,6)] row(1) [OF that(3,4) j'(1)]
    have "nat c * d + j = nat c' * d + j'" by simp
    with rows_disjoint [OF that(5,6) j'(1)] show False by simp
  qed
  have Pj: "P j = k * d + j" "P j < length w" if "j < d" for j
    using row [OF cf(1,2) that] by (simp_all add: P_def k_def)
  have inj: "inj_on P {..<d}" unfolding P_def using cf(1,2) by (rule injr)
  have csr: "0 \<le> c" "nat c < length (subforms s)" "nat c \<noteq> nat a" if "c \<in> set cs" for c
    using cf(6) that by (simp_all add: cs_def)
  define w1 where "w1 = for_j d (\<lambda>j w. w[P j := (w ! P j - pw ! j) * r]) w"
  have F1: "(w' ! P j - pw ! j) * r = (w ! P j - pw ! j) * r" if "j < d" "length w' = length w"
    "\<forall>i<length w. i \<notin> P ` {..<j} \<longrightarrow> w' ! i = w ! i" for j w'
    using that(3) Pj(2) [OF that(1)] not_in_earlier [OF inj that(1)] by simp
  have len1: "length w1 = length w"
    unfolding w1_def using inj Pj(2) F1
    by (rule for_j_update(1) [where F = "\<lambda>j w. (w ! P j - pw ! j) * r"
          and G = "\<lambda>j. (w ! P j - pw ! j) * r"])
  have row1: "w1 ! P j = (w ! P j - pw ! j) * r" if "j < d" for j
    unfolding w1_def using inj Pj(2) F1 that
    by (rule for_j_update(2) [where F = "\<lambda>j w. (w ! P j - pw ! j) * r"
          and G = "\<lambda>j. (w ! P j - pw ! j) * r"])
  have oth1: "w1 ! i = w ! i" if "i < length w" "i \<notin> P ` {..<d}" for i
    unfolding w1_def using inj Pj(2) F1 that
    by (rule for_j_update(3) [where F = "\<lambda>j w. (w ! P j - pw ! j) * r"
          and G = "\<lambda>j. (w ! P j - pw ! j) * r"])
  define w2 where
    "w2 = foldl (\<lambda>w c. for_j d (\<lambda>j w. w[index d c j := w ! index d c j + w ! P j]) w) w1 cs"
  have dst: "length w2 = length w1 \<and>
         (\<forall>c\<in>set cs. \<forall>j<d. w2 ! index d c j = w1 ! index d c j + w1 ! P j) \<and>
         (\<forall>i<length w1. (\<forall>c\<in>set cs. i \<notin> index d c ` {..<d}) \<longrightarrow> w2 ! i = w1 ! i)"
    unfolding w2_def
  proof (rule distribute_rows)
    show "distinct cs" using dist by (simp add: cs_def)
  next
    fix c assume "c \<in> set cs" then show "inj_on (index d c) {..<d}" using csr injr by simp
  next
    fix c j assume "c \<in> set cs" "j < d"
    then show "index d c j < length w1" using csr row(2) len1 by simp
  next
    fix j assume "j < d" then show "P j < length w1" using Pj(2) len1 by simp
  next
    fix c j assume "c \<in> set cs" "j < d"
    then show "P j \<notin> index d c ` {..<d}"
      unfolding P_def using disj [OF cf(1,2), of c j] csr [of c] by simp
  next
    fix c c' j assume c: "c \<in> set cs" "c' \<in> set cs" "c \<noteq> c'" "j < d"
    then have "nat c \<noteq> nat c'" using csr(1) [of c] csr(1) [of c'] by simp
    with c show "index d c j \<notin> index d c' ` {..<d}"
      using disj [of c c' j] csr by simp
  qed
  have len2: "length w2 = length w" using dst len1 by simp
  have upd: "update_step s a =
      s\<lparr>weights := w2,
        previous_weights := (previous_weights s)[nat a := (previous_weights s ! nat a)[dimension s := 0]]\<rparr>"
    by (simp add: update_step_def Let_def w2_def w1_def P_def r_def cs_def d_def w_def pw_def)
  have val: "w2 ! (nat c * d + j) = w ! (nat c * d + j) + (if c \<in> set cs then delta s a j else 0)"
    if c: "0 \<le> c" "nat c < length (subforms s)" "c \<noteq> a" "j < d" for c j
  proof -
    from c(1,3) cf(1) have ne: "nat c \<noteq> nat a" by simp
    have notP: "index d c j \<notin> P ` {..<d}"
      unfolding P_def using disj [OF c(1,2) cf(1,2) ne c(4)] .
    have w1c: "w1 ! index d c j = w ! index d c j"
      using row(2) [OF c(1,2,4)] notP by (rule oth1)
    show ?thesis
    proof (cases "c \<in> set cs")
      case True
      with dst c(4) have "w2 ! index d c j = w1 ! index d c j + w1 ! P j" by blast
      with w1c row1 [OF c(4)] Pj(1) [OF c(4)] row(1) [OF c(1,2,4)] True show ?thesis
        by (simp add: delta_def entry_def r_def cs_def k_def d_def w_def pw_def)
    next
      case False
      have "\<forall>c'\<in>set cs. index d c j \<notin> index d c' ` {..<d}"
      proof
        fix c' assume c': "c' \<in> set cs"
        with False have "c \<noteq> c'" by auto
        with c(1) csr(1) [OF c'] have "nat c \<noteq> nat c'" by simp
        from disj [OF c(1,2) csr(1,2) [OF c'] this c(4)]
        show "index d c j \<notin> index d c' ` {..<d}" .
      qed
      with dst row(2) [OF c(1,2,4)] len1 have "w2 ! index d c j = w1 ! index d c j" by simp
      with w1c row(1) [OF c(1,2,4)] False show ?thesis by simp
    qed
  qed
  show ?thesis
  proof (intro exI [of _ w2] conjI allI impI)
    show "update_step s a =
      s\<lparr>weights := w2,
        previous_weights := (previous_weights s)[nat a := (previous_weights s ! nat a)[dimension s := 0]]\<rparr>"
      by (rule upd)
    show "length w2 = length (weights s)" using len2 by (simp add: w_def)
  next
    fix c j
    assume "0 \<le> c \<and> nat c < length (subforms s) \<and> c \<noteq> a \<and> j < dimension s"
    then show "w2 ! (nat c * dimension s + j) =
               weights s ! (nat c * dimension s + j) +
               (if c \<in> set (subforms s ! nat a) then delta s a j else 0)"
      using val [of c j] by (simp add: d_def cs_def w_def)
  qed
qed


lemma update_loop_result:
  assumes "invariant (s\<lparr>active_subforms := ids\<rparr>)" and "fits s"
  shows "\<exists>s'. update_loop s ids = Inr s' \<and>
          (\<forall>a\<in>set ids. previous_weights s' ! nat a ! dimension s = 0) \<and>
          (\<forall>i. int i \<notin> set ids \<longrightarrow> previous_weights s' ! i = previous_weights s ! i) \<and>
          (\<forall>c j. c < loaded_rows s \<longrightarrow> j < dimension s \<longrightarrow>
             entry s' (int c) j =
               entry s (int c) j +
               (\<Sum>a\<leftarrow>ids. if int c \<in> set (subforms s ! nat a) then delta s a j else 0))"
  using assms
proof (induction ids arbitrary: s)
  case Nil
  then show ?case by simp
next
  case (Cons a ids)
  let ?s0 = "s\<lparr>active_subforms := a # ids\<rparr>"
  let ?s1 = "update_step s a"
  let ?d = "dimension s" and ?k = "nat a"
  from Cons.prems(1) have comp: "composed s a" and notin: "a \<notin> set ids"
    and comps: "\<forall>a'\<in>set ids. composed s a'"
    and lr: "loaded_rows s \<le> length (subforms s)"
    and lpw: "length (previous_weights s) = length (subforms s)"
    by (simp_all add: invariant_def)
  have fits0: "fits ?s0" using Cons.prems(2) by (simp add: fits_def)
  have comp0: "composed ?s0 a" using comp by simp
  note cf0 = composed_facts [OF Cons.prems(1) fits0 comp0]
  have pos: "0 \<le> a" and k: "?k < length (subforms s)" using cf0(1,2) by simp_all
  have plen: "?d < length (previous_weights s ! ?k)"
    using cf0(6) by (simp add: composed_row_def)
  have ge: "loaded_rows s \<le> ?k" using comp unfolding composed_def by linarith
  have rng: "update_in_range s a"
    using materialize_in_range_composed(2) [OF Cons.prems(1) fits0 comp0]
    by (simp add: update_in_range_def)
  from update_step_result [OF Cons.prems(1,2) comp] obtain w' where
    s1: "?s1 = s\<lparr>weights := w',
              previous_weights := (previous_weights s)[?k := (previous_weights s ! ?k)[?d := 0]]\<rparr>"
    and lw: "length w' = length (weights s)"
    and val: "\<forall>c j. 0 \<le> c \<and> nat c < length (subforms s) \<and> c \<noteq> a \<and> j < ?d \<longrightarrow>
             w' ! (nat c * ?d + j) =
               weights s ! (nat c * ?d + j) +
               (if c \<in> set (subforms s ! ?k) then delta s a j else 0)"
    by blast
  have f1: "dimension ?s1 = ?d" "subforms ?s1 = subforms s" "loaded_rows ?s1 = loaded_rows s"
    "weights ?s1 = w'"
    "previous_weights ?s1 = (previous_weights s)[?k := (previous_weights s ! ?k)[?d := 0]]"
    by (simp_all add: s1)
  have inv1: "invariant (?s1\<lparr>active_subforms := ids\<rparr>)"
    using Cons.prems(1) by (rule update_step_invariant)
  have fits1: "fits ?s1" using Cons.prems(2) lw by (simp add: fits_def f1)
  from Cons.IH [OF inv1 fits1] obtain s' where
    loop: "update_loop ?s1 ids = Inr s'"
    and flags: "\<forall>a'\<in>set ids. previous_weights s' ! nat a' ! dimension ?s1 = 0"
    and keep: "\<forall>i. int i \<notin> set ids \<longrightarrow> previous_weights s' ! i = previous_weights ?s1 ! i"
    and vals: "\<forall>c j. c < loaded_rows ?s1 \<longrightarrow> j < dimension ?s1 \<longrightarrow>
             entry s' (int c) j =
               entry ?s1 (int c) j +
               (\<Sum>a'\<leftarrow>ids. if int c \<in> set (subforms ?s1 ! nat a') then delta ?s1 a' j else 0)"
    by blast
  have entry1: "entry ?s1 c j =
      entry s c j + (if c \<in> set (subforms s ! ?k) then delta s a j else 0)"
    if "0 \<le> c" "nat c < length (subforms s)" "c \<noteq> a" "j < ?d" for c j
    using val that by (simp add: entry_def f1)
  have const: "c \<notin> set (subforms s ! ?k)" if "composed s c" for c
    using cf0(6) that by (auto simp: composed_row_def composed_def)
  have delta1: "delta ?s1 a' j = delta s a' j" if a': "a' \<in> set ids" and j: "j < ?d" for a' j
  proof -
    from comps a' have c: "composed s a'" by blast
    then have r: "0 \<le> a'" "nat a' < length (subforms s)" unfolding composed_def by linarith+
    from a' notin have ne: "a' \<noteq> a" by auto
    with r(1) pos have nek: "?k \<noteq> nat a'" by simp
    from entry1 [OF r ne j] const [OF c] have "entry ?s1 a' j = entry s a' j" by simp
    moreover from nek have "previous_weights ?s1 ! nat a' = previous_weights s ! nat a'"
      by (simp add: f1)
    ultimately show ?thesis by (simp add: delta_def f1)
  qed
  show ?case
  proof (intro exI [of _ s'] conjI ballI allI impI)
    show "update_loop s (a # ids) = Inr s'" using rng loop by simp
  next
    fix a' assume a': "a' \<in> set (a # ids)"
    show "previous_weights s' ! nat a' ! ?d = 0"
    proof (cases "a' \<in> set ids")
      case True
      with flags show ?thesis by (simp add: f1)
    next
      case False
      with a' have eq: "a' = a" by simp
      from notin pos have "int ?k \<notin> set ids" by simp
      with keep have "previous_weights s' ! ?k = previous_weights ?s1 ! ?k" by blast
      with k lpw plen eq show ?thesis by (simp add: f1)
    qed
  next
    fix i assume i: "int i \<notin> set (a # ids)"
    then have "int i \<notin> set ids" "i \<noteq> ?k" using pos by auto
    with keep show "previous_weights s' ! i = previous_weights s ! i" by (simp add: f1)
  next
    fix c j assume c: "c < loaded_rows s" and j: "j < ?d"
    from c ge lr have r: "0 \<le> int c" "nat (int c) < length (subforms s)" "int c \<noteq> a"
      using pos by simp_all
    have "map (\<lambda>a'. if int c \<in> set (subforms ?s1 ! nat a') then delta ?s1 a' j else 0) ids =
          map (\<lambda>a'. if int c \<in> set (subforms s ! nat a') then delta s a' j else 0) ids"
      by (rule map_cong [OF refl]) (simp add: f1 delta1 [OF _ j])
    then have sum: "(\<Sum>a'\<leftarrow>ids. if int c \<in> set (subforms ?s1 ! nat a') then delta ?s1 a' j else 0) =
          (\<Sum>a'\<leftarrow>ids. if int c \<in> set (subforms s ! nat a') then delta s a' j else 0)"
      by (rule arg_cong)
    from vals c j have "entry s' (int c) j =
               entry ?s1 (int c) j +
               (\<Sum>a'\<leftarrow>ids. if int c \<in> set (subforms ?s1 ! nat a') then delta ?s1 a' j else 0)"
      by (simp add: f1)
    with sum entry1 [OF r j]
    show "entry s' (int c) j =
               entry s (int c) j +
               (\<Sum>a\<leftarrow>a # ids. if int c \<in> set (subforms s ! nat a) then delta s a j else 0)"
      by simp
  qed
qed

section \<open>Claims about \<open>weight\<close> and \<open>update_weights\<close>\<close>

text \<open>
  Claim C3. In subform mode, in an embedding that satisfies the invariant and whose
  weights fit 32-bit indices, \<open>weight\<close> of a composed id with a stale cache slot returns
  the pointer to the row of the id, after it has made that row the element-wise mean of
  the rows of the constituents as they were at the call, copied the row to the cache
  snapshot, set the validity flag to 1 and appended the id to \<open>active_subforms\<close>.
\<close>

theorem weight_materializes:
  assumes "invariant s" and "fits s" and "subform s" and "composed s ident" and "stale s ident"
  shows "\<exists>s'. weight s ident = Inr (Some (nat ident * dimension s), s') \<and>
          row s' ident =
            map (\<lambda>j. (\<Sum>c\<leftarrow>subforms s ! nat ident. entry s c j) /
                       real (length (subforms s ! nat ident))) [0..<dimension s] \<and>
          take (dimension s) (previous_weights s' ! nat ident) = row s' ident \<and>
          previous_weights s' ! nat ident ! dimension s = 1 \<and>
          \<not> stale s' ident \<and>
          active_subforms s' = active_subforms s @ [ident]"
proof -
  note cf = composed_facts [OF assms(1,2,4)]
  note rg = materialize_in_range_composed [OF assms(1,2,4)]
  let ?d = "dimension s" and ?k = "nat ident"
  have plen: "length (previous_weights s ! ?k) = ?d + 1"
    using cf(6) by (simp add: composed_row_def)
  then have ne: "previous_weights s ! ?k \<noteq> []" by auto
  from materialize_result [OF assms(1,2,4)] obtain w' where
    mat: "materialize s ident =
            s\<lparr>weights := w',
              previous_weights := (previous_weights s)
                [?k := map (\<lambda>j. w' ! (?k * ?d + j)) [0..<?d] @ [1]],
              active_subforms := active_subforms s @ [ident]\<rparr>"
    and len: "length w' = length (weights s)"
    and mean: "\<forall>j<?d. w' ! (?k * ?d + j) =
             (\<Sum>c\<leftarrow>subforms s ! ?k. weights s ! (nat c * ?d + j)) / real (length (subforms s ! ?k))"
    by blast
  let ?s' = "materialize s ident"
  have w: "weight s ident = Inr (Some (?k * ?d), ?s')"
    using assms(3,5) cf(1,8) rg plen ne by (simp add: weight_def stale_def)
  have row': "row ?s' ident = map (\<lambda>j. w' ! (?k * ?d + j)) [0..<?d]"
    using row_nth [of ident "length (subforms s)" ?s'] cf(2,4) len
    by (simp add: mat entry_def)
  have 1: "row ?s' ident =
            map (\<lambda>j. (\<Sum>c\<leftarrow>subforms s ! ?k. entry s c j) / real (length (subforms s ! ?k))) [0..<?d]"
    unfolding row' using mean by (simp add: entry_def)
  have pw: "previous_weights ?s' ! ?k = map (\<lambda>j. w' ! (?k * ?d + j)) [0..<?d] @ [1]"
    using cf(8) by (simp add: mat)
  have 2: "take ?d (previous_weights ?s' ! ?k) = row ?s' ident"
    unfolding pw row' by simp
  have 3: "previous_weights ?s' ! ?k ! ?d = 1"
    unfolding pw by (simp add: nth_append)
  have 4: "\<not> stale ?s' ident"
    using 3 by (simp add: stale_def mat)
  have 5: "active_subforms ?s' = active_subforms s @ [ident]"
    by (simp add: mat)
  from w 1 2 3 4 5 show ?thesis by blast
qed

text \<open>The theorem at the composed id 2 of \<open>cats\<close>, whose only constituent is the row
  \<open>[1, 0]\<close> of \<open>cat\<close>.\<close>

theorem weight_materializes_witness:
  "invariant cats \<and> fits cats \<and> subform cats \<and> composed cats 2 \<and> stale cats 2 \<and>
   (\<exists>s'. weight cats 2 = Inr (Some 4, s') \<and> row s' 2 = [1, 0] \<and>
         take 2 (previous_weights s' ! 2) = [1, 0] \<and> previous_weights s' ! 2 ! 2 = 1 \<and>
         active_subforms s' = [2])"
proof -
  have i: "invariant cats" using reachable_invariant [OF reachable_cats] by simp
  have f: "fits cats" by (simp add: fits_def cats_def)
  have s: "subform cats" by (simp add: cats_def cat_dog_def)
  have c: "composed cats 2" by (simp add: composed_def cats_def cat_dog_def loaded_rows_def)
  have t: "stale cats 2" by (simp add: stale_def cats_def cat_dog_def)
  have e: "entry cats 0 0 = 1" "entry cats 0 (Suc 0) = 0"
    by (simp_all add: entry_def cats_def cat_dog_def)
  have u: "[0..<2] = [0, Suc 0]" by (simp add: numeral_2_eq_2)
  from weight_materializes [OF i f s c t] obtain s' where
    "weight cats 2 = Inr (Some (nat 2 * dimension cats), s')"
    "row s' 2 = map (\<lambda>j. (\<Sum>c\<leftarrow>subforms cats ! nat 2. entry cats c j) /
                       real (length (subforms cats ! nat 2))) [0..<dimension cats]"
    "take (dimension cats) (previous_weights s' ! nat 2) = row s' 2"
    "previous_weights s' ! nat 2 ! dimension cats = 1"
    "active_subforms s' = active_subforms cats @ [2]"
    by blast
  moreover have "dimension cats = 2" "subforms cats ! nat 2 = [0]" "active_subforms cats = []"
    by (simp_all add: cats_def cat_dog_def)
  ultimately have "weight cats 2 = Inr (Some 4, s') \<and> row s' 2 = [1, 0] \<and>
         take 2 (previous_weights s' ! 2) = [1, 0] \<and> previous_weights s' ! 2 ! 2 = 1 \<and>
         active_subforms s' = [2]"
    by (simp add: u e)
  with i f s c t show ?thesis by blast
qed

text \<open>
  Claim C2. In subform mode, in an embedding that satisfies the invariant and whose
  weights fit 32-bit indices, \<open>update_weights\<close> returns with an empty list of active
  ids and with the cache slot of every id that was active stale; and every loaded row has
  received, for each active id of which it is a constituent, the difference of the id's
  row and its cached snapshot divided by the number of the id's constituents (rows and
  snapshots as they were at the call).
\<close>

theorem update_weights_redistributes:
  assumes "invariant s" and "fits s" and "subform s"
  shows "\<exists>s'. update_weights s = Inr s' \<and> active_subforms s' = [] \<and>
          (\<forall>a\<in>set (active_subforms s). stale s' a) \<and>
          (\<forall>c j. c < loaded_rows s \<longrightarrow> j < dimension s \<longrightarrow>
             entry s' (int c) j =
               entry s (int c) j +
               (\<Sum>a\<leftarrow>active_subforms s.
                  if int c \<in> set (subforms s ! nat a) then delta s a j else 0))"
proof -
  from assms(1) have "invariant (s\<lparr>active_subforms := active_subforms s\<rparr>)" by simp
  from update_loop_result [OF this assms(2)] obtain s1 where
    loop: "update_loop s (active_subforms s) = Inr s1"
    and flags: "\<forall>a\<in>set (active_subforms s). previous_weights s1 ! nat a ! dimension s = 0"
    and vals: "\<forall>c j. c < loaded_rows s \<longrightarrow> j < dimension s \<longrightarrow>
             entry s1 (int c) j =
               entry s (int c) j +
               (\<Sum>a\<leftarrow>active_subforms s.
                  if int c \<in> set (subforms s ! nat a) then delta s a j else 0)"
    by blast
  from update_loop_frame [OF loop] have dim: "dimension s1 = dimension s" by simp
  let ?s' = "s1\<lparr>active_subforms := []\<rparr>"
  have "update_weights s = Inr ?s'" using assms(3) loop by (simp add: update_weights_def)
  moreover have "\<forall>a\<in>set (active_subforms s). stale ?s' a"
    using flags by (simp add: stale_def dim)
  moreover have "\<forall>c j. c < loaded_rows s \<longrightarrow> j < dimension s \<longrightarrow>
             entry ?s' (int c) j =
               entry s (int c) j +
               (\<Sum>a\<leftarrow>active_subforms s.
                  if int c \<in> set (subforms s ! nat a) then delta s a j else 0)"
    using vals by (simp add: entry_def)
  ultimately show ?thesis by auto
qed

text \<open>The theorem at \<open>cats_trained\<close>: the row of \<open>cat\<close> goes from \<open>[1, 0]\<close> to
  \<open>[3, 4]\<close>, the row of \<open>dog\<close> stays \<open>[0, 1]\<close>.\<close>

lemma invariant_cats_trained: "invariant cats_trained"
  by (simp add: invariant_def cats_trained_def cats_def cat_dog_def loaded_rows_def
      plain_row_def composed_row_def composed_def lessThan_Suc numeral_3_eq_3 nth_Cons')

theorem update_weights_redistributes_witness:
  "invariant cats_trained \<and> fits cats_trained \<and> subform cats_trained \<and>
   (\<exists>s'. update_weights cats_trained = Inr s' \<and> active_subforms s' = [] \<and> stale s' 2 \<and>
         entry s' 0 0 = 3 \<and> entry s' 0 1 = 4 \<and> entry s' 1 0 = 0 \<and> entry s' 1 1 = 1)"
proof -
  have f: "fits cats_trained" by (simp add: fits_def cats_trained_def)
  have s: "subform cats_trained" by (simp add: cats_trained_def cats_def cat_dog_def)
  have v: "loaded_rows cats_trained = 2" "dimension cats_trained = 2"
    "active_subforms cats_trained = [2]" "subforms cats_trained ! 2 = [0]"
    by (simp_all add: cats_trained_def cats_def cat_dog_def loaded_rows_def)
  have e: "entry cats_trained 0 0 = 1" "entry cats_trained 0 (Suc 0) = 0"
    "entry cats_trained 1 0 = 0" "entry cats_trained 1 (Suc 0) = 1"
    "delta cats_trained 2 0 = 2" "delta cats_trained 2 (Suc 0) = 4"
    by (simp_all add: entry_def delta_def cats_trained_def cats_def cat_dog_def)
  from update_weights_redistributes [OF invariant_cats_trained f s] obtain s' where
    u: "update_weights cats_trained = Inr s'" "active_subforms s' = []"
      "\<forall>a\<in>set (active_subforms cats_trained). stale s' a"
    and r: "\<forall>c j. c < loaded_rows cats_trained \<longrightarrow> j < dimension cats_trained \<longrightarrow>
             entry s' (int c) j =
               entry cats_trained (int c) j +
               (\<Sum>a\<leftarrow>active_subforms cats_trained.
                  if int c \<in> set (subforms cats_trained ! nat a) then delta cats_trained a j else 0)"
    by blast
  from r [rule_format, of 0 0] r [rule_format, of 0 1] r [rule_format, of 1 0] r [rule_format, of 1 1]
  have "entry s' 0 0 = 3 \<and> entry s' 0 1 = 4 \<and> entry s' 1 0 = 0 \<and> entry s' 1 1 = 1"
    by (simp add: v e)
  with u invariant_cats_trained f s show ?thesis by (auto simp: v)
qed

text \<open>
  The range check of \<open>weight\<close> is the check against the number of rows for the ids
  whose product with the dimension fits 32 bits; a null result leaves the embedding as it
  was.
\<close>

lemma weight_null_iff:
  assumes "invariant s" and "0 \<le> ident \<longrightarrow> nat ident * dimension s < 2 ^ 32"
  shows "(\<exists>s'. weight s ident = Inr (None, s')) \<longleftrightarrow>
           ident < 0 \<or> int (length (subforms s)) \<le> ident"
    and "weight s ident = Inr (None, s') \<Longrightarrow> s' = s"
proof -
  from assms(1) have d: "0 < dimension s"
    and len: "length (weights s) = length (subforms s) * dimension s"
    by (simp_all add: invariant_def)
  have off: "row_offset (dimension s) ident = nat ident * dimension s" if "0 \<le> ident"
  proof -
    from that assms(2) have lt: "nat ident * dimension s < 2 ^ 32" by simp
    have "nat ident \<le> nat ident * dimension s" using d by simp
    with lt have "nat ident < 2 ^ 32" by linarith
    with that have "u32 ident = nat ident" by (rule u32_small)
    with lt show ?thesis by (simp add: row_offset_def)
  qed
  have guard: "(ident < 0 \<or> length (weights s) \<le> row_offset (dimension s) ident) \<longleftrightarrow>
      (ident < 0 \<or> int (length (subforms s)) \<le> ident)"
  proof (cases "ident < 0")
    case True
    then show ?thesis by simp
  next
    case False
    then have pos: "0 \<le> ident" by simp
    have "length (subforms s) * dimension s \<le> nat ident * dimension s \<longleftrightarrow>
        length (subforms s) \<le> nat ident"
      using d by simp
    with pos show ?thesis by (simp add: off len) linarith
  qed
  show "(\<exists>s'. weight s ident = Inr (None, s')) \<longleftrightarrow>
           ident < 0 \<or> int (length (subforms s)) \<le> ident"
    unfolding guard [symmetric] by (auto simp: weight_def)
  show "weight s ident = Inr (None, s') \<Longrightarrow> s' = s"
    by (auto simp: weight_def split: if_splits)
qed

section \<open>Claims about \<open>load\<close>\<close>

lemma le_value_enc_4B:
  assumes "n < 2 ^ 32"
  shows "le_value (enc_4B n) = n"
proof -
  define m1 where "m1 = n div 256"
  define m2 where "m2 = m1 div 256"
  define m3 where "m3 = m2 div 256"
  have "n < 256 * (256 * (256 * 256))" using assms by simp
  then have "m3 < 256"
    unfolding m3_def m2_def m1_def by (simp add: less_mult_imp_div_less mult.commute)
  then have 3: "m3 mod 256 = m3" by simp
  have 2: "m2 mod 256 + 256 * m3 = m2" unfolding m3_def by simp
  have 1: "m1 mod 256 + 256 * m2 = m1" unfolding m2_def by simp
  have 0: "n mod 256 + 256 * m1 = n" unfolding m1_def by simp
  have "le_value (enc_4B n) =
      n mod 256 + 256 * (m1 mod 256 + 256 * (m2 mod 256 + 256 * (m3 mod 256)))"
    by (simp add: le_value_def enc_4B_def m1_def m2_def m3_def)
  also have "\<dots> = n" by (simp only: 3 2 1 0)
  finally show ?thesis .
qed

lemma next_4B_enc: "n < 2 ^ 32 \<Longrightarrow> next_4B (enc_4B n @ r) = Inr (n, r)"
  using le_value_enc_4B [of n] by (simp add: next_4B_def next_bytes_def) (simp add: enc_4B_def)

lemma next_1B_enc: "b < 256 \<Longrightarrow> next_1B (char_of b # r) = Inr (b, r)"
  by (simp add: next_1B_def next_bytes_def)

lemma next_str_enc: "length w < 2 ^ 32 \<Longrightarrow> next_str (enc_str w @ r) = Inr (w, r)"
  by (simp add: next_str_def enc_str_def next_1B_def next_bytes_def next_4B_enc)

lemma next_float_enc:
  "length fs = 4 * n \<Longrightarrow> next_float float_of n (fs @ r) = Inr (map float_of (chunks4 n fs), r)"
  by (simp add: next_float_def next_bytes_def)


lemma load_dictionary_enc:
  assumes "distinct ws" and "\<forall>w\<in>set ws. length w < 2 ^ 32"
    and "\<forall>w\<in>set ws. dict_find d0 w = None"
  shows "load_dictionary (length ws) d0 (concat (map enc_str ws) @ r) =
           Inr (d0 @ zip ws (map int [length d0..<length d0 + length ws]), r)"
  using assms
proof (induction ws arbitrary: d0)
  case Nil
  then show ?case by simp
next
  case (Cons w ws)
  let ?d1 = "d0 @ [(w, int (length d0))]"
  have str: "next_str (concat (map enc_str (w # ws)) @ r) = Inr (w, concat (map enc_str ws) @ r)"
    using Cons.prems(2) next_str_enc [of w "concat (map enc_str ws) @ r"] by simp
  have emp: "dict_emplace d0 w (int (length d0)) = ?d1"
    using Cons.prems(3) by (simp add: dict_emplace_def)
  have "\<forall>w'\<in>set ws. dict_find ?d1 w' = None"
    using Cons.prems(1,3) by (auto simp: dict_find_append)
  with Cons.prems have IH: "load_dictionary (length ws) ?d1 (concat (map enc_str ws) @ r) =
      Inr (?d1 @ zip ws (map int [length ?d1..<length ?d1 + length ws]), r)"
    by (intro Cons.IH) simp_all
  have "[length d0..<length d0 + Suc (length ws)] =
      length d0 # [Suc (length d0)..<length d0 + Suc (length ws)]"
    by (rule upt_conv_Cons) simp
  then have upt: "[length d0..<length d0 + length (w # ws)] =
      length d0 # [length ?d1..<length ?d1 + length ws]"
    by simp
  show ?case
    unfolding upt using str emp IH by simp
qed

lemma load_steps:
  assumes "next_4B dat = Inr (d, dat1)" and "next_4B dat1 = Inr (n, dat2)"
    and "load_dictionary n [] dat2 = Inr (dict, dat3)"
    and "next_1B dat3 = Inr (has_unknown, dat4)" and "next_1B dat4 = Inr (sub, dat5)"
    and "next_float float_of (d * (length dict + (if has_unknown \<noteq> 0 then 1 else 0))) dat5 =
           Inr (ws, rest)"
    and "d \<noteq> 0"
  shows "load float_of s0 dat =
           Inr (s0\<lparr>dimension := d,
                   updatable_index := 2 ^ 31 - 1,
                   unknown_index := (if has_unknown \<noteq> 0 then int (length dict) else - 1),
                   dictionary := dict,
                   weights := ws,
                   subform := (sub \<noteq> 0),
                   subforms := resize (length ws div d) (subforms s0),
                   previous_weights := resize (length ws div d) (previous_weights s0)\<rparr>,
                rest)"
  using assms by (cases "has_unknown = 0") (simp_all add: load_def Let_def)

lemma chunks4_numeral:
  "chunks4 (numeral k) bs = take 4 bs # chunks4 (pred_numeral k) (drop 4 bs)"
  by (simp add: numeral_eq_Suc)

text \<open>
  Claim C5, as amended. For a freshly constructed embedding, a dimension other than 0 and
  pairwise distinct words, \<open>load\<close> reads, in this order, the 4-byte dimension, the 4-byte
  dictionary size \<open>N\<close>, the \<open>N\<close> length-prefixed words, which get the ids \<open>0\<close> to
  \<open>N - 1\<close> in the order read, the byte of the unknown word, the byte of the subform
  mode and the \<open>dimension * (N + has_unknown)\<close> floats of the weights, and leaves the
  rest of the input unread. The unknown word, if there is one, has the id \<open>N\<close> of the
  last row; \<open>subforms\<close> and \<open>previous_weights\<close> have one empty entry for each row.
\<close>

theorem load_layout:
  fixes has_unknown sub :: nat
  assumes "fresh s0" and "0 < d" and "d < 2 ^ 32" and "length ws < 2 ^ 32"
    and "distinct ws" and "\<forall>w\<in>set ws. length w < 2 ^ 32"
    and "has_unknown < 256" and "sub < 256"
    and "length fs = 4 * (d * (length ws + (if has_unknown \<noteq> 0 then 1 else 0)))"
  shows "load float_of s0
           (enc_4B d @ enc_4B (length ws) @ concat (map enc_str ws) @
            [char_of has_unknown, char_of sub] @ fs @ rest) =
         Inr (s0\<lparr>dimension := d,
                 updatable_index := 2 ^ 31 - 1,
                 unknown_index := (if has_unknown \<noteq> 0 then int (length ws) else - 1),
                 dictionary := zip ws (map int [0..<length ws]),
                 weights := map float_of
                   (chunks4 (d * (length ws + (if has_unknown \<noteq> 0 then 1 else 0))) fs),
                 subform := (sub \<noteq> 0),
                 subforms := replicate (length ws + (if has_unknown \<noteq> 0 then 1 else 0)) [],
                 previous_weights :=
                   replicate (length ws + (if has_unknown \<noteq> 0 then 1 else 0)) []\<rparr>,
              rest)"
proof -
  let ?rows = "length ws + (if has_unknown \<noteq> 0 then 1 else 0)"
  let ?dict = "zip ws (map int [0..<length ws])"
  have 1: "next_4B (enc_4B d @ enc_4B (length ws) @ concat (map enc_str ws) @
            [char_of has_unknown, char_of sub] @ fs @ rest) =
          Inr (d, enc_4B (length ws) @ concat (map enc_str ws) @
            [char_of has_unknown, char_of sub] @ fs @ rest)"
    using assms(3) by (rule next_4B_enc)
  have 2: "next_4B (enc_4B (length ws) @ concat (map enc_str ws) @
            [char_of has_unknown, char_of sub] @ fs @ rest) =
          Inr (length ws, concat (map enc_str ws) @ [char_of has_unknown, char_of sub] @ fs @ rest)"
    using assms(4) by (rule next_4B_enc)
  have 3: "load_dictionary (length ws) []
            (concat (map enc_str ws) @ [char_of has_unknown, char_of sub] @ fs @ rest) =
          Inr (?dict, [char_of has_unknown, char_of sub] @ fs @ rest)"
    using load_dictionary_enc [OF assms(5,6), of "[]"] by (simp add: dict_find_def)
  have 4: "next_1B ([char_of has_unknown, char_of sub] @ fs @ rest) =
          Inr (has_unknown, char_of sub # fs @ rest)"
    using next_1B_enc [OF assms(7)] by simp
  have 5: "next_1B (char_of sub # fs @ rest) = Inr (sub, fs @ rest)"
    using assms(8) by (rule next_1B_enc)
  have 6: "next_float float_of (d * ?rows) (fs @ rest) =
          Inr (map float_of (chunks4 (d * ?rows) fs), rest)"
    using assms(9) by (intro next_float_enc) simp
  have len: "length ?dict = length ws" by simp
  have rows: "length (map float_of (chunks4 (d * ?rows) fs)) div d = ?rows"
    using assms(2) by (simp add: length_chunks4)
  have res: "resize ?rows (subforms s0) = replicate ?rows []"
    "resize ?rows (previous_weights s0) = replicate ?rows []"
    using assms(1) by (simp_all add: resize_def fresh_def)
  have unk: "(if (if has_unknown \<noteq> 0 then int (length ws) else - 1) \<ge> 0 then 1 else 0) =
      (if has_unknown \<noteq> 0 then 1 else (0 :: nat))"
    by simp
  have 6: "next_float float_of (d * (length ?dict + (if has_unknown \<noteq> 0 then 1 else 0))) (fs @ rest) =
          Inr (map float_of (chunks4 (d * ?rows) fs), rest)"
    using 6 by (simp only: len)
  have d: "d \<noteq> 0" using assms(2) by simp
  show ?thesis
    unfolding load_steps [OF 1 2 3 4 5 6 d] rows res len ..
qed

text \<open>The theorem at the file of the scenario of the spec, followed by the four bytes
  \<open>rest\<close>.\<close>

theorem load_layout_witness:
  "fresh fresh_embedding \<and> distinct [''cat'', ''dog''] \<and>
   load byte_float fresh_embedding
     (enc_4B 2 @ enc_4B 2 @ concat (map enc_str [''cat'', ''dog'']) @
      [char_of (0 :: nat), char_of (1 :: nat)] @ cat_dog_floats @ ''rest'') =
   Inr (cat_dog, ''rest'')"
proof -
  have f: "fresh fresh_embedding" by (simp add: fresh_def fresh_embedding_def)
  have l: "length cat_dog_floats = 4 * (2 * (length [''cat'', ''dog''] + (if (0 :: nat) \<noteq> 0 then 1 else 0)))"
    by (simp add: cat_dog_floats_def)
  have h: "(0 :: nat) < 2" "(2 :: nat) < 2 ^ 32" "length [''cat'', ''dog''] < 2 ^ 32"
    "distinct [''cat'', ''dog'']" "\<forall>w\<in>set [''cat'', ''dog'']. length w < 2 ^ 32"
    "(0 :: nat) < 256" "(1 :: nat) < 256"
    by simp_all
  have e: "fresh_embedding\<lparr>dimension := 2,
                 updatable_index := 2 ^ 31 - 1,
                 unknown_index := (if (0 :: nat) \<noteq> 0 then int (length [''cat'', ''dog'']) else - 1),
                 dictionary := zip [''cat'', ''dog''] (map int [0..<length [''cat'', ''dog'']]),
                 weights := map byte_float
                   (chunks4 (2 * (length [''cat'', ''dog''] + (if (0 :: nat) \<noteq> 0 then 1 else 0)))
                      cat_dog_floats),
                 subform := ((1 :: nat) \<noteq> 0),
                 subforms := replicate (length [''cat'', ''dog''] + (if (0 :: nat) \<noteq> 0 then 1 else 0)) [],
                 previous_weights :=
                   replicate (length [''cat'', ''dog''] + (if (0 :: nat) \<noteq> 0 then 1 else 0)) []\<rparr>
      = cat_dog"
    by (simp add: cat_dog_def fresh_embedding_def cat_dog_floats_def byte_float_def
          chunks4_numeral)
  have n: "length [''cat'', ''dog''] = 2" by simp
  from load_layout [OF f h l, of byte_float "''rest''"]
  have "load byte_float fresh_embedding
     (enc_4B 2 @ enc_4B 2 @ concat (map enc_str [''cat'', ''dog'']) @
      [char_of (0 :: nat), char_of (1 :: nat)] @ cat_dog_floats @ ''rest'') =
   Inr (cat_dog, ''rest'')"
    unfolding e unfolding n .
  with f h(4) show ?thesis by blast
qed

text \<open>
  Claim C5 as stated fails when a word is repeated: the file announces \<open>N = 2\<close> words
  and dimension 1, so that two floats should be read and the ids 0 and 1 given out. The
  second \<open>a\<close> gets no id (\<open>emplace\<close> keeps the first entry), the dictionary has the size
  1, and \<open>load\<close> reads one float only: the bytes of the second float stay unread.
\<close>

theorem load_duplicate_counterexample:
  "load byte_float fresh_embedding duplicate_file =
     Inr (fresh_embedding\<lparr>dimension := 1, updatable_index := 2147483647, unknown_index := - 1,
            dictionary := [(''a'', 0)], weights := [7], subform := False,
            subforms := [[]], previous_weights := [[]]\<rparr>,
          [CHR 0x09, CHR 0x00, CHR 0x00, CHR 0x00])"
  by (simp add: load_def duplicate_file_def next_4B_def next_1B_def next_bytes_def le_value_def
      next_str_def next_float_def byte_float_def fresh_embedding_def
      dict_emplace_def dict_find_def resize_def)

end
